theory Spec2Isabelle
  imports Main
begin

section \<open>The triangle counters of core.py over CSR adjacency\<close>

text \<open>
  The arrays of the source are one-dimensional, C-contiguous \<open>int64\<close> arrays. They are
  modelled as lists of integers. The only arithmetic the kernels perform on these values is
  \<open>node + 1\<close>, \<open>len(indptr) - 1\<close> and \<open>counter += 1\<close>; lemma \<open>counters_bounded\<close> below
  bounds every counter of a valid CSR input by the length of the index array, so that no 64-bit
  counter can wrap on such an input and unbounded integers describe the run exactly.

  The kernels are compiled without bounds checks. An index is first taken from the end when
  it is negative; the element at the resulting position is then read whether or not the
  position is inside the array. What such a read finds outside the array is not in the
  array: the model takes it from a parameter, \<open>beyond\<close>, one for each array that is indexed,
  which gives the word the memory holds at each position outside the array and is taken to
  stay the same during the call. The bounds of a slice are clipped to the array, so a slice
  never reaches outside it.
\<close>

text \<open>\<open>xs[i]\<close>.\<close>

definition getitem :: "(int \<Rightarrow> int) \<Rightarrow> int list \<Rightarrow> int \<Rightarrow> int" where
  "getitem beyond xs i =
     (let j = (if i < 0 then i + int (length xs) else i)
      in if 0 \<le> j \<and> j < int (length xs) then xs ! nat j else beyond j)"

text \<open>
  \<open>xs[a:b]\<close>: a negative bound is taken from the end, then both bounds are clipped to
  \<open>0 .. len(xs)\<close>; the slice is empty when the upper bound is not above the lower one.
\<close>

definition slice_bound :: "nat \<Rightarrow> int \<Rightarrow> nat" where
  "slice_bound n i = (if i < 0 then nat (max 0 (i + int n)) else min n (nat i))"

definition getslice :: "int list \<Rightarrow> int \<Rightarrow> int \<Rightarrow> int list" where
  "getslice xs a b =
     (let lo = slice_bound (length xs) a; hi = slice_bound (length xs) b
      in take (hi - lo) (drop lo xs))"

text \<open>\<open>get_neigh\<close>: \<open>indices[indptr[node]:indptr[node + 1]]\<close>.\<close>

definition get_neigh :: "(int \<Rightarrow> int) \<Rightarrow> int \<Rightarrow> int list \<Rightarrow> int list \<Rightarrow> int list" where
  "get_neigh beyond node indices indptr =
     getslice indices (getitem beyond indptr node) (getitem beyond indptr (node + 1))"

text \<open>
  \<open>np.zeros((n,), dtype=np.int64)\<close> for a non-negative \<open>n\<close>, and \<open>arr[v] += 1\<close>. The
  kernels write at positions \<open>v\<close> taken from \<open>prange(num_nodes)\<close> into arrays of
  \<open>num_nodes\<close> entries, so the position is always inside the array. \<open>np.zeros\<close> refuses a
  negative dimension with a \<open>ValueError\<close>, the only error a kernel can end with.
\<close>

datatype error = ValueError

definition zeros :: "nat \<Rightarrow> int list" where
  "zeros n = replicate n 0"

definition incr :: "int list \<Rightarrow> nat \<Rightarrow> int list" where
  "incr arr v = arr[v := arr ! v + 1]"

text \<open>
  \<open>set(arr)\<close>: the distinct entries of the array. The iteration order of a set is not fixed
  by the language; the model enumerates the elements in the order \<open>remdups\<close> leaves them, and
  lemmas \<open>local_neigh_loop_order\<close> and \<open>motif_loop_order\<close> show that the loops over an egonet
  give the same result in any other order.
\<close>

definition py_set :: "int list \<Rightarrow> int list" where
  "py_set arr = remdups arr"

subsection \<open>\<open>_count_number_local_triangles\<close>\<close>

text \<open>
  The inner loop, lines 90 to 92: \<open>num_t\<close> grows by one for each entry of the slice that is in
  the egonet.
\<close>

definition local_visit :: "int list \<Rightarrow> int \<Rightarrow> int \<Rightarrow> int" where
  "local_visit egonet num_t neigh_neigh =
     (if neigh_neigh \<in> set egonet then num_t + 1 else num_t)"

definition local_neigh_body ::
  "(int \<Rightarrow> int) \<Rightarrow> int list \<Rightarrow> int list \<Rightarrow> int list \<Rightarrow> int \<Rightarrow> int \<Rightarrow> int" where
  "local_neigh_body beyond egonet indices indptr num_t neigh =
     foldl (local_visit egonet) num_t (get_neigh beyond neigh indices indptr)"

text \<open>Lines 86 to 92 for node \<open>v\<close>: the egonet and the final value of \<open>num_t\<close>.\<close>

definition local_count :: "(int \<Rightarrow> int) \<Rightarrow> int list \<Rightarrow> int list \<Rightarrow> nat \<Rightarrow> int" where
  "local_count beyond indices indptr v =
     (let egonet = py_set (get_neigh beyond (int v) indices indptr)
      in foldl (local_neigh_body beyond egonet indices indptr) 0 egonet)"

text \<open>The body of the \<open>prange\<close> loop, with the store of line 93.\<close>

definition local_node ::
  "(int \<Rightarrow> int) \<Rightarrow> int list \<Rightarrow> int list \<Rightarrow> int list \<Rightarrow> nat \<Rightarrow> int list" where
  "local_node beyond indices indptr num_triangles v =
     num_triangles[v := local_count beyond indices indptr v]"

text \<open>
  The whole kernel, the nodes visited in increasing order. \<open>len(indptr) - 1\<close> is negative
  for an empty \<open>indptr\<close>.
\<close>

definition count_number_local_triangles ::
  "(int \<Rightarrow> int) \<Rightarrow> int list \<Rightarrow> int list \<Rightarrow> error + int list" where
  "count_number_local_triangles beyond indices indptr =
     (let num_nodes = int (length indptr) - 1
      in if num_nodes < 0 then Inl ValueError
         else Inr (foldl (local_node beyond indices indptr) (zeros (nat num_nodes))
                     [0..<nat num_nodes]))"

subsection \<open>\<open>_count_number_triangles_directed\<close>\<close>

record motif_counts =
  num_out_triangles :: "int list"
  num_in_triangles :: "int list"
  num_cycle_triangles :: "int list"
  num_middle_triangles :: "int list"

text \<open>Lines 54 to 59: one entry of the out-slice of an out-neighbour of \<open>v\<close>.\<close>

definition out_visit :: "nat \<Rightarrow> int list \<Rightarrow> int list \<Rightarrow> motif_counts \<Rightarrow> int \<Rightarrow> motif_counts" where
  "out_visit v out_egonet in_egonet st out_out_neigh =
     (if out_out_neigh = int v then st
      else
        (let st1 = (if out_out_neigh \<in> set out_egonet
                    then st\<lparr>num_out_triangles := incr (num_out_triangles st) v\<rparr> else st)
         in if out_out_neigh \<in> set in_egonet
            then st1\<lparr>num_cycle_triangles := incr (num_cycle_triangles st1) v\<rparr> else st1))"

text \<open>Lines 62 to 67: one entry of the out-slice of an in-neighbour of \<open>v\<close>.\<close>

definition in_visit :: "nat \<Rightarrow> int list \<Rightarrow> int list \<Rightarrow> motif_counts \<Rightarrow> int \<Rightarrow> motif_counts" where
  "in_visit v out_egonet in_egonet st out_in_neigh =
     (if out_in_neigh = int v then st
      else
        (let st1 = (if out_in_neigh \<in> set out_egonet
                    then st\<lparr>num_middle_triangles := incr (num_middle_triangles st) v\<rparr> else st)
         in if out_in_neigh \<in> set in_egonet
            then st1\<lparr>num_in_triangles := incr (num_in_triangles st1) v\<rparr> else st1))"

text \<open>Lines 53 and 61: the loop over the out-slice of one neighbour.\<close>

definition motif_neigh_body ::
  "(motif_counts \<Rightarrow> int \<Rightarrow> motif_counts) \<Rightarrow> (int \<Rightarrow> int) \<Rightarrow> int list \<Rightarrow> int list
     \<Rightarrow> motif_counts \<Rightarrow> int \<Rightarrow> motif_counts" where
  "motif_neigh_body visit beyond_out out_indices out_indptr st neigh =
     foldl visit st (get_neigh beyond_out neigh out_indices out_indptr)"

text \<open>
  The body of the \<open>prange\<close> loop, lines 50 to 67, for node \<open>v\<close>. \<open>beyond_out\<close> is the memory
  around \<open>out_indptr\<close> and \<open>beyond_in\<close> the memory around \<open>in_indptr\<close>.
\<close>

definition directed_node ::
  "(int \<Rightarrow> int) \<Rightarrow> (int \<Rightarrow> int) \<Rightarrow> int list \<Rightarrow> int list \<Rightarrow> int list \<Rightarrow> int list
     \<Rightarrow> motif_counts \<Rightarrow> nat \<Rightarrow> motif_counts" where
  "directed_node beyond_out beyond_in out_indices out_indptr in_indices in_indptr st v =
     (let out_egonet = py_set (get_neigh beyond_out (int v) out_indices out_indptr);
          in_egonet = py_set (get_neigh beyond_in (int v) in_indices in_indptr);
          st1 = foldl (motif_neigh_body (out_visit v out_egonet in_egonet)
                         beyond_out out_indices out_indptr) st out_egonet
      in foldl (motif_neigh_body (in_visit v out_egonet in_egonet)
                  beyond_out out_indices out_indptr) st1 in_egonet)"

definition count_number_triangles_directed ::
  "(int \<Rightarrow> int) \<Rightarrow> (int \<Rightarrow> int) \<Rightarrow> int list \<Rightarrow> int list \<Rightarrow> int list \<Rightarrow> int list
     \<Rightarrow> error + (int list \<times> int list \<times> int list \<times> int list)" where
  "count_number_triangles_directed beyond_out beyond_in
       out_indices out_indptr in_indices in_indptr =
     (let num_nodes = int (length out_indptr) - 1
      in if num_nodes < 0 then Inl ValueError
         else
           (let n = nat num_nodes;
                st0 = \<lparr>num_out_triangles = zeros n, num_in_triangles = zeros n,
                       num_cycle_triangles = zeros n, num_middle_triangles = zeros n\<rparr>;
                st = foldl (directed_node beyond_out beyond_in
                              out_indices out_indptr in_indices in_indptr) st0 [0..<n]
            in Inr (num_out_triangles st, num_in_triangles st,
                    num_cycle_triangles st, num_middle_triangles st)))"

section \<open>CSR structures and the counts of the specification\<close>

text \<open>
  The row of a node in a CSR structure: the entries of \<open>indices\<close> in the half-open range
  \<open>indptr[node] .. indptr[node + 1]\<close>, in order and with their repetitions.
\<close>

definition csr_row :: "int list \<Rightarrow> int list \<Rightarrow> int \<Rightarrow> int list" where
  "csr_row indices indptr node =
     take (nat (indptr ! nat (node + 1)) - nat (indptr ! nat node))
       (drop (nat (indptr ! nat node)) indices)"

text \<open>
  A valid CSR structure over \<open>N\<close> nodes: \<open>indptr\<close> has \<open>N + 1\<close> non-negative,
  non-decreasing entries, the last one is the length of \<open>indices\<close>, and every entry of
  \<open>indices\<close> is a node id in \<open>[0, N)\<close>.
\<close>

definition valid_csr :: "nat \<Rightarrow> int list \<Rightarrow> int list \<Rightarrow> bool" where
  "valid_csr N indices indptr \<longleftrightarrow>
     length indptr = N + 1 \<and> sorted indptr \<and> (\<forall>p \<in> set indptr. 0 \<le> p) \<and>
     last indptr = int (length indices) \<and> (\<forall>x \<in> set indices. 0 \<le> x \<and> x < int N)"

text \<open>
  The same without the condition that the entries of \<open>indptr\<close> are non-negative.
\<close>

definition well_formed_csr :: "nat \<Rightarrow> int list \<Rightarrow> int list \<Rightarrow> bool" where
  "well_formed_csr N indices indptr \<longleftrightarrow>
     length indptr = N + 1 \<and> sorted indptr \<and> last indptr = int (length indices) \<and>
     (\<forall>x \<in> set indices. 0 \<le> x \<and> x < int N)"

text \<open>
  The number of pairs \<open>(w, x)\<close> with \<open>w\<close> in the set \<open>A\<close> and \<open>x\<close> an entry of the row
  of \<open>w\<close> that satisfies \<open>P\<close>, every occurrence of an entry in the row counted (lemma
  \<open>pair_count_card\<close>).
\<close>

definition pair_count :: "(int \<Rightarrow> int list) \<Rightarrow> int set \<Rightarrow> (int \<Rightarrow> bool) \<Rightarrow> nat" where
  "pair_count row A P = (\<Sum>w \<in> A. length (filter P (row w)))"

text \<open>
  The counting rule of the undirected counter: \<open>u\<close> ranges over the set of neighbours of
  \<open>v\<close>, \<open>x\<close> over the entries of the row of \<open>u\<close> that are in that set.
\<close>

definition local_pairs :: "int list \<Rightarrow> int list \<Rightarrow> nat \<Rightarrow> nat" where
  "local_pairs indices indptr v =
     (let egonet = set (csr_row indices indptr (int v))
      in pair_count (csr_row indices indptr) egonet (\<lambda>x. x \<in> egonet))"

text \<open>
  The four counting rules of the directed counter. The first walk starts from the set of
  out-neighbours of \<open>v\<close>, the second from the set of in-neighbours; both follow out-rows
  and leave out the entries equal to \<open>v\<close>.
\<close>

definition out_pairs :: "int list \<Rightarrow> int list \<Rightarrow> nat \<Rightarrow> nat" where
  "out_pairs out_indices out_indptr v =
     (let out_egonet = set (csr_row out_indices out_indptr (int v))
      in pair_count (csr_row out_indices out_indptr) out_egonet
           (\<lambda>x. x \<noteq> int v \<and> x \<in> out_egonet))"

definition cycle_pairs :: "int list \<Rightarrow> int list \<Rightarrow> int list \<Rightarrow> int list \<Rightarrow> nat \<Rightarrow> nat" where
  "cycle_pairs out_indices out_indptr in_indices in_indptr v =
     (let out_egonet = set (csr_row out_indices out_indptr (int v));
          in_egonet = set (csr_row in_indices in_indptr (int v))
      in pair_count (csr_row out_indices out_indptr) out_egonet
           (\<lambda>x. x \<noteq> int v \<and> x \<in> in_egonet))"

definition middle_pairs :: "int list \<Rightarrow> int list \<Rightarrow> int list \<Rightarrow> int list \<Rightarrow> nat \<Rightarrow> nat" where
  "middle_pairs out_indices out_indptr in_indices in_indptr v =
     (let out_egonet = set (csr_row out_indices out_indptr (int v));
          in_egonet = set (csr_row in_indices in_indptr (int v))
      in pair_count (csr_row out_indices out_indptr) in_egonet
           (\<lambda>z. z \<noteq> int v \<and> z \<in> out_egonet))"

definition in_pairs :: "int list \<Rightarrow> int list \<Rightarrow> int list \<Rightarrow> int list \<Rightarrow> nat \<Rightarrow> nat" where
  "in_pairs out_indices out_indptr in_indices in_indptr v =
     (let in_egonet = set (csr_row in_indices in_indptr (int v))
      in pair_count (csr_row out_indices out_indptr) in_egonet
           (\<lambda>z. z \<noteq> int v \<and> z \<in> in_egonet))"

text \<open>
  The out-CSR and the in-CSR are exact transposes: the edge \<open>u \<rightarrow> w\<close> occurs in the out-row
  of \<open>u\<close> as many times as in the in-row of \<open>w\<close>.
\<close>

definition transposes :: "nat \<Rightarrow> int list \<Rightarrow> int list \<Rightarrow> int list \<Rightarrow> int list \<Rightarrow> bool" where
  "transposes N out_indices out_indptr in_indices in_indptr \<longleftrightarrow>
     (\<forall>u \<in> {0..<int N}. \<forall>w \<in> {0..<int N}.
        count_list (csr_row out_indices out_indptr u) w
          = count_list (csr_row in_indices in_indptr w) u)"

definition self_loop_free :: "nat \<Rightarrow> int list \<Rightarrow> int list \<Rightarrow> bool" where
  "self_loop_free N indices indptr \<longleftrightarrow>
     (\<forall>v \<in> {0..<int N}. v \<notin> set (csr_row indices indptr v))"

text \<open>
  A CSR structure over \<open>2 * N\<close> nodes that holds two disjoint copies of a graph over \<open>N\<close>
  nodes: the row of a node \<open>w < N\<close> is its row in the graph, and the row of \<open>w + N\<close> is
  that row with every node id moved up by \<open>N\<close>. No row joins the two copies.
\<close>

definition two_copies :: "nat \<Rightarrow> int list \<Rightarrow> int list \<Rightarrow> int list \<Rightarrow> int list \<Rightarrow> bool" where
  "two_copies N indices indptr indices2 indptr2 \<longleftrightarrow>
     (\<forall>w \<in> {0..<int N}.
        csr_row indices2 indptr2 w = csr_row indices indptr w \<and>
        csr_row indices2 indptr2 (w + int N) = map (\<lambda>x. x + int N) (csr_row indices indptr w))"

text \<open>
  One way to build it, for a CSR whose \<open>indptr\<close> starts at 0: the index array followed by
  its shifted copy, and the row boundaries followed by their copies moved past the first
  index array.
\<close>

definition duplicate_csr :: "int list \<Rightarrow> int list \<Rightarrow> int list \<times> int list" where
  "duplicate_csr indices indptr =
     (indices @ map (\<lambda>x. x + (int (length indptr) - 1)) indices,
      indptr @ map (\<lambda>p. p + int (length indices)) (tl indptr))"

section \<open>Auxiliary definitions of the proofs\<close>

text \<open>\<open>arr[v] += k\<close>, and the effect of one node on the four arrays.\<close>

definition add_at :: "int list \<Rightarrow> nat \<Rightarrow> int \<Rightarrow> int list" where
  "add_at arr v k = arr[v := arr ! v + k]"

definition node_effect ::
  "(nat \<Rightarrow> int) \<Rightarrow> (nat \<Rightarrow> int) \<Rightarrow> (nat \<Rightarrow> int) \<Rightarrow> (nat \<Rightarrow> int) \<Rightarrow> motif_counts \<Rightarrow> nat \<Rightarrow> motif_counts" where
  "node_effect f_out f_in f_cycle f_middle st v =
     \<lparr>num_out_triangles = add_at (num_out_triangles st) v (f_out v),
      num_in_triangles = add_at (num_in_triangles st) v (f_in v),
      num_cycle_triangles = add_at (num_cycle_triangles st) v (f_cycle v),
      num_middle_triangles = add_at (num_middle_triangles st) v (f_middle v)\<rparr>"

text \<open>
  The counts of one node as the kernels compute them, over the rows that \<open>get_neigh\<close>
  returns: \<open>row\<close> gives the rows the walks follow, \<open>A\<close> is the egonet the walk starts from
  and \<open>B\<close> the egonet the entries are tested against.
\<close>

definition walk_count :: "(int \<Rightarrow> int list) \<Rightarrow> int list \<Rightarrow> int list \<Rightarrow> nat \<Rightarrow> nat" where
  "walk_count row A B v = pair_count row (set A) (\<lambda>x. x \<noteq> int v \<and> x \<in> set B)"

text \<open>
  The four counts of node \<open>v\<close> as the directed kernel computes them on any input, and the
  count of the undirected kernel.
\<close>

definition kernel_out :: "(int \<Rightarrow> int) \<Rightarrow> int list \<Rightarrow> int list \<Rightarrow> nat \<Rightarrow> nat" where
  "kernel_out beyond_out out_indices out_indptr v =
     walk_count (\<lambda>w. get_neigh beyond_out w out_indices out_indptr)
       (get_neigh beyond_out (int v) out_indices out_indptr)
       (get_neigh beyond_out (int v) out_indices out_indptr) v"

definition kernel_cycle ::
  "(int \<Rightarrow> int) \<Rightarrow> (int \<Rightarrow> int) \<Rightarrow> int list \<Rightarrow> int list \<Rightarrow> int list \<Rightarrow> int list \<Rightarrow> nat \<Rightarrow> nat" where
  "kernel_cycle beyond_out beyond_in out_indices out_indptr in_indices in_indptr v =
     walk_count (\<lambda>w. get_neigh beyond_out w out_indices out_indptr)
       (get_neigh beyond_out (int v) out_indices out_indptr)
       (get_neigh beyond_in (int v) in_indices in_indptr) v"

definition kernel_middle ::
  "(int \<Rightarrow> int) \<Rightarrow> (int \<Rightarrow> int) \<Rightarrow> int list \<Rightarrow> int list \<Rightarrow> int list \<Rightarrow> int list \<Rightarrow> nat \<Rightarrow> nat" where
  "kernel_middle beyond_out beyond_in out_indices out_indptr in_indices in_indptr v =
     walk_count (\<lambda>w. get_neigh beyond_out w out_indices out_indptr)
       (get_neigh beyond_in (int v) in_indices in_indptr)
       (get_neigh beyond_out (int v) out_indices out_indptr) v"

definition kernel_in ::
  "(int \<Rightarrow> int) \<Rightarrow> (int \<Rightarrow> int) \<Rightarrow> int list \<Rightarrow> int list \<Rightarrow> int list \<Rightarrow> int list \<Rightarrow> nat \<Rightarrow> nat" where
  "kernel_in beyond_out beyond_in out_indices out_indptr in_indices in_indptr v =
     walk_count (\<lambda>w. get_neigh beyond_out w out_indices out_indptr)
       (get_neigh beyond_in (int v) in_indices in_indptr)
       (get_neigh beyond_in (int v) in_indices in_indptr) v"

subsection \<open>The kernels over a store of arrays\<close>

text \<open>
  To speak of the arrays a call reads, writes and allocates, the kernels are modelled a
  second time over an explicit store. An array lives at an address; the store lists the
  arrays by address, and \<open>np.zeros\<close> puts a new array at the first unused address. The
  arguments of a kernel are the addresses of its input arrays. A slice is a view: it names
  the array and a range of positions, and an entry is read from the store when the loop
  reaches it.
\<close>

type_synonym addr = nat

type_synonym heap = "int list list"

definition np_zeros :: "heap \<Rightarrow> nat \<Rightarrow> addr \<times> heap" where
  "np_zeros h n = (length h, h @ [zeros n])"

definition heap_incr :: "heap \<Rightarrow> addr \<Rightarrow> nat \<Rightarrow> heap" where
  "heap_incr h a v = h[a := incr (h ! a) v]"

definition heap_assign :: "heap \<Rightarrow> addr \<Rightarrow> nat \<Rightarrow> int \<Rightarrow> heap" where
  "heap_assign h a v x = h[a := (h ! a)[v := x]]"

type_synonym view = "addr \<times> nat \<times> nat"

definition get_neigh_view :: "(int \<Rightarrow> int) \<Rightarrow> heap \<Rightarrow> int \<Rightarrow> addr \<Rightarrow> addr \<Rightarrow> view" where
  "get_neigh_view beyond h node p_indices p_indptr =
     (p_indices,
      slice_bound (length (h ! p_indices)) (getitem beyond (h ! p_indptr) node),
      slice_bound (length (h ! p_indices)) (getitem beyond (h ! p_indptr) (node + 1)))"

definition view_elems :: "heap \<Rightarrow> view \<Rightarrow> int list" where
  "view_elems h vw = (case vw of (p, lo, hi) \<Rightarrow> map (\<lambda>i. h ! p ! i) [lo..<hi])"

text \<open>
  The undirected kernel writes once per node, at line 93; until then the node's iteration
  only reads, so its counter is \<open>local_count\<close> of the input arrays as the store holds them.
\<close>

definition local_node_heap ::
  "(int \<Rightarrow> int) \<Rightarrow> addr \<Rightarrow> addr \<Rightarrow> addr \<Rightarrow> heap \<Rightarrow> nat \<Rightarrow> heap" where
  "local_node_heap beyond p_indices p_indptr r h v =
     heap_assign h r v (local_count beyond (h ! p_indices) (h ! p_indptr) v)"

definition count_number_local_triangles_heap ::
  "(int \<Rightarrow> int) \<Rightarrow> heap \<Rightarrow> addr \<Rightarrow> addr \<Rightarrow> error + (addr \<times> heap)" where
  "count_number_local_triangles_heap beyond h p_indices p_indptr =
     (let num_nodes = int (length (h ! p_indptr)) - 1
      in if num_nodes < 0 then Inl ValueError
         else
           (case np_zeros h (nat num_nodes) of
              (p_num_triangles, h1) \<Rightarrow>
                Inr (p_num_triangles,
                     foldl (local_node_heap beyond p_indices p_indptr p_num_triangles) h1
                       [0..<nat num_nodes])))"

text \<open>
  The directed kernel writes inside its inner loops. \<open>r_first\<close> is the array incremented
  for an entry in the out-egonet and \<open>r_second\<close> the one for an entry in the in-egonet.
\<close>

definition visit_heap :: "nat \<Rightarrow> int list \<Rightarrow> int list \<Rightarrow> addr \<Rightarrow> addr \<Rightarrow> heap \<Rightarrow> int \<Rightarrow> heap" where
  "visit_heap v out_egonet in_egonet r_first r_second h x =
     (if x = int v then h
      else
        (let h1 = (if x \<in> set out_egonet then heap_incr h r_first v else h)
         in if x \<in> set in_egonet then heap_incr h1 r_second v else h1))"

definition motif_neigh_body_heap ::
  "(heap \<Rightarrow> int \<Rightarrow> heap) \<Rightarrow> (int \<Rightarrow> int) \<Rightarrow> addr \<Rightarrow> addr \<Rightarrow> heap \<Rightarrow> int \<Rightarrow> heap" where
  "motif_neigh_body_heap visit beyond_out p_out_indices p_out_indptr h neigh =
     (case get_neigh_view beyond_out h neigh p_out_indices p_out_indptr of
        (p, lo, hi) \<Rightarrow> foldl (\<lambda>h' i. visit h' (h' ! p ! i)) h [lo..<hi])"

record result_addrs =
  r_out :: addr
  r_in :: addr
  r_cycle :: addr
  r_middle :: addr

definition directed_node_heap ::
  "(int \<Rightarrow> int) \<Rightarrow> (int \<Rightarrow> int) \<Rightarrow> addr \<Rightarrow> addr \<Rightarrow> addr \<Rightarrow> addr \<Rightarrow> result_addrs
     \<Rightarrow> heap \<Rightarrow> nat \<Rightarrow> heap" where
  "directed_node_heap beyond_out beyond_in p_out_indices p_out_indptr p_in_indices p_in_indptr
       r h v =
     (let out_egonet =
            py_set (view_elems h (get_neigh_view beyond_out h (int v) p_out_indices p_out_indptr));
          in_egonet =
            py_set (view_elems h (get_neigh_view beyond_in h (int v) p_in_indices p_in_indptr));
          h1 = foldl (motif_neigh_body_heap
                        (visit_heap v out_egonet in_egonet (r_out r) (r_cycle r))
                        beyond_out p_out_indices p_out_indptr) h out_egonet
      in foldl (motif_neigh_body_heap
                  (visit_heap v out_egonet in_egonet (r_middle r) (r_in r))
                  beyond_out p_out_indices p_out_indptr) h1 in_egonet)"

definition count_number_triangles_directed_heap ::
  "(int \<Rightarrow> int) \<Rightarrow> (int \<Rightarrow> int) \<Rightarrow> heap \<Rightarrow> addr \<Rightarrow> addr \<Rightarrow> addr \<Rightarrow> addr
     \<Rightarrow> error + (result_addrs \<times> heap)" where
  "count_number_triangles_directed_heap beyond_out beyond_in h
       p_out_indices p_out_indptr p_in_indices p_in_indptr =
     (let num_nodes = int (length (h ! p_out_indptr)) - 1
      in if num_nodes < 0 then Inl ValueError
         else
           (let n = nat num_nodes
            in case np_zeros h n of (p_num_out, h1) \<Rightarrow>
               case np_zeros h1 n of (p_num_in, h2) \<Rightarrow>
               case np_zeros h2 n of (p_num_cycle, h3) \<Rightarrow>
               case np_zeros h3 n of (p_num_middle, h4) \<Rightarrow>
                 (let r = \<lparr>r_out = p_num_out, r_in = p_num_in,
                           r_cycle = p_num_cycle, r_middle = p_num_middle\<rparr>
                  in Inr (r, foldl (directed_node_heap beyond_out beyond_in p_out_indices
                                      p_out_indptr p_in_indices p_in_indptr r) h4 [0..<n]))))"

text \<open>
  The store that holds an initial store followed by the four result arrays, and the
  addresses at which four successive allocations put them.
\<close>

definition heap_of :: "heap \<Rightarrow> motif_counts \<Rightarrow> heap" where
  "heap_of h0 st =
     h0 @ [num_out_triangles st, num_in_triangles st, num_cycle_triangles st,
           num_middle_triangles st]"

definition fresh_addrs :: "heap \<Rightarrow> result_addrs" where
  "fresh_addrs h0 =
     \<lparr>r_out = length h0, r_in = Suc (length h0), r_cycle = Suc (Suc (length h0)),
      r_middle = Suc (Suc (Suc (length h0)))\<rparr>"

subsection \<open>The kernels run by parallel workers\<close>

text \<open>
  \<open>prange\<close> splits the node range among workers. A worker runs the loop body for its
  nodes one after the other; the workers run at the same time and share the result
  arrays. The model interleaves the workers at the level of single loads and stores of
  result entries: \<open>arr[v] += 1\<close> is a load of \<open>arr[v]\<close> into a register of the worker
  followed by a store of the register plus one, and \<open>arr[v] = x\<close> is a store. The input
  arrays are only read and no branch of a kernel depends on a result array, so the memory
  operations of a node's iteration are a list that the inputs determine.
\<close>

datatype array_id = A_triangles | A_out | A_in | A_cycle | A_middle

datatype micro = Load array_id nat | Store_incr array_id nat | Store_value array_id nat int

type_synonym shared = "array_id \<Rightarrow> int list"

type_synonym worker = "int \<times> micro list"

fun slot_of :: "micro \<Rightarrow> nat" where
  "slot_of (Load k s) = s"
| "slot_of (Store_incr k s) = s"
| "slot_of (Store_value k s x) = s"

text \<open>One memory operation of a worker whose register holds \<open>r\<close>.\<close>

fun exec_micro :: "micro \<Rightarrow> shared \<Rightarrow> int \<Rightarrow> shared \<times> int" where
  "exec_micro (Load k s) m r = (m, m k ! s)"
| "exec_micro (Store_incr k s) m r = (m(k := (m k)[s := r + 1]), r)"
| "exec_micro (Store_value k s x) m r = (m(k := (m k)[s := x]), r)"

text \<open>
  A worker is its register and the operations it has still to do. A step of worker \<open>i\<close>
  performs its next operation on the shared arrays; a worker that has finished, or an
  index that names no worker, leaves everything as it is. A schedule lists which worker
  moves next.
\<close>

definition worker_step :: "shared \<times> worker list \<Rightarrow> nat \<Rightarrow> shared \<times> worker list" where
  "worker_step cfg i =
     (case cfg of (m, ws) \<Rightarrow>
        if i < length ws
        then (case ws ! i of
                (r, []) \<Rightarrow> cfg
              | (r, op # rest) \<Rightarrow>
                  (case exec_micro op m r of (m', r') \<Rightarrow> (m', ws[i := (r', rest)])))
        else cfg)"

definition run_schedule :: "nat list \<Rightarrow> shared \<times> worker list \<Rightarrow> shared \<times> worker list" where
  "run_schedule sched cfg = foldl worker_step cfg sched"

definition finished :: "worker list \<Rightarrow> bool" where
  "finished ws \<longleftrightarrow> (\<forall>w \<in> set ws. snd w = [])"

text \<open>
  One worker for each chunk of nodes, its register cleared, with the operations of its
  nodes in the order of the chunk.
\<close>

definition spawn :: "(nat \<Rightarrow> micro list) \<Rightarrow> nat list list \<Rightarrow> worker list" where
  "spawn node_ops chunks = map (\<lambda>chunk. (0, concat (map node_ops chunk))) chunks"

text \<open>The operations of the undirected kernel for node \<open>v\<close>: the store of line 93.\<close>

definition local_node_ops :: "(int \<Rightarrow> int) \<Rightarrow> int list \<Rightarrow> int list \<Rightarrow> nat \<Rightarrow> micro list" where
  "local_node_ops beyond indices indptr v =
     [Store_value A_triangles v (local_count beyond indices indptr v)]"

definition local_shared :: "int list \<Rightarrow> shared" where
  "local_shared num_triangles = (\<lambda>k. case k of A_triangles \<Rightarrow> num_triangles | _ \<Rightarrow> [])"

text \<open>
  The operations of the directed kernel for node \<open>v\<close>, loop by loop as in \<open>out_visit\<close>,
  \<open>in_visit\<close>, \<open>motif_neigh_body\<close> and \<open>directed_node\<close>.
\<close>

definition incr_ops :: "array_id \<Rightarrow> nat \<Rightarrow> micro list" where
  "incr_ops k v = [Load k v, Store_incr k v]"

definition out_visit_ops :: "nat \<Rightarrow> int list \<Rightarrow> int list \<Rightarrow> int \<Rightarrow> micro list" where
  "out_visit_ops v out_egonet in_egonet out_out_neigh =
     (if out_out_neigh = int v then []
      else (if out_out_neigh \<in> set out_egonet then incr_ops A_out v else [])
           @ (if out_out_neigh \<in> set in_egonet then incr_ops A_cycle v else []))"

definition in_visit_ops :: "nat \<Rightarrow> int list \<Rightarrow> int list \<Rightarrow> int \<Rightarrow> micro list" where
  "in_visit_ops v out_egonet in_egonet out_in_neigh =
     (if out_in_neigh = int v then []
      else (if out_in_neigh \<in> set out_egonet then incr_ops A_middle v else [])
           @ (if out_in_neigh \<in> set in_egonet then incr_ops A_in v else []))"

definition motif_neigh_ops ::
  "(int \<Rightarrow> micro list) \<Rightarrow> (int \<Rightarrow> int) \<Rightarrow> int list \<Rightarrow> int list \<Rightarrow> int \<Rightarrow> micro list" where
  "motif_neigh_ops visit_ops beyond_out out_indices out_indptr neigh =
     concat (map visit_ops (get_neigh beyond_out neigh out_indices out_indptr))"

definition directed_node_ops ::
  "(int \<Rightarrow> int) \<Rightarrow> (int \<Rightarrow> int) \<Rightarrow> int list \<Rightarrow> int list \<Rightarrow> int list \<Rightarrow> int list
     \<Rightarrow> nat \<Rightarrow> micro list" where
  "directed_node_ops beyond_out beyond_in out_indices out_indptr in_indices in_indptr v =
     (let out_egonet = py_set (get_neigh beyond_out (int v) out_indices out_indptr);
          in_egonet = py_set (get_neigh beyond_in (int v) in_indices in_indptr)
      in concat (map (motif_neigh_ops (out_visit_ops v out_egonet in_egonet)
                        beyond_out out_indices out_indptr) out_egonet)
         @ concat (map (motif_neigh_ops (in_visit_ops v out_egonet in_egonet)
                          beyond_out out_indices out_indptr) in_egonet))"

definition motif_shared :: "motif_counts \<Rightarrow> shared" where
  "motif_shared st =
     (\<lambda>k. case k of
             A_out \<Rightarrow> num_out_triangles st
           | A_in \<Rightarrow> num_in_triangles st
           | A_cycle \<Rightarrow> num_cycle_triangles st
           | A_middle \<Rightarrow> num_middle_triangles st
           | A_triangles \<Rightarrow> [])"

text \<open>The shared arrays as \<open>np.zeros\<close> leaves them at the start of each kernel.\<close>

definition local_start :: "nat \<Rightarrow> shared" where
  "local_start n = local_shared (zeros n)"

definition directed_start :: "nat \<Rightarrow> shared" where
  "directed_start n =
     motif_shared \<lparr>num_out_triangles = zeros n, num_in_triangles = zeros n,
                   num_cycle_triangles = zeros n, num_middle_triangles = zeros n\<rparr>"

text \<open>
  A worker that runs alone performs its operations in order. \<open>par_inv\<close> relates an
  interleaved run to the runs of the workers alone: worker \<open>i\<close> has done a prefix of its
  operations, its register is what the prefix leaves when run alone, and the shared arrays
  agree with that run on the slots worker \<open>i\<close> owns.
\<close>

definition exec_prog :: "micro list \<Rightarrow> shared \<times> int \<Rightarrow> shared \<times> int" where
  "exec_prog p c = foldl (\<lambda>c op. exec_micro op (fst c) (snd c)) c p"

definition par_inv ::
  "micro list list \<Rightarrow> (nat \<Rightarrow> nat set) \<Rightarrow> shared \<Rightarrow> shared \<times> worker list \<Rightarrow> bool" where
  "par_inv progs owned m0 cfg \<longleftrightarrow>
     length (snd cfg) = length progs \<and>
     (\<forall>k. length (fst cfg k) = length (m0 k)) \<and>
     (\<forall>i < length progs. \<exists>done.
        progs ! i = done @ snd (snd cfg ! i) \<and>
        fst (snd cfg ! i) = snd (exec_prog done (m0, 0)) \<and>
        (\<forall>k. \<forall>s \<in> owned i. fst cfg k ! s = fst (exec_prog done (m0, 0)) k ! s))"

text \<open>
  A list of operations implements a change \<open>f\<close> of the arrays of a kernel when it changes the
  shared arrays as \<open>f\<close> does, whatever the register holds at its start.
\<close>

definition implements :: "('s \<Rightarrow> shared) \<Rightarrow> micro list \<Rightarrow> ('s \<Rightarrow> 's) \<Rightarrow> bool" where
  "implements layout p f \<longleftrightarrow> (\<forall>s r. fst (exec_prog p (layout s, r)) = layout (f s))"

section \<open>Properties of the kernels\<close>

subsection \<open>Reading a row\<close>

lemma getitem_in_range:
  "0 \<le> i \<Longrightarrow> i < int (length xs) \<Longrightarrow> getitem beyond xs i = xs ! nat i"
  by (simp add: getitem_def)

lemma getslice_nonneg:
  assumes "0 \<le> a" "0 \<le> b"
  shows "getslice xs a b = take (nat b - nat a) (drop (nat a) xs)"
proof -
  have "take (min (length xs) (nat b) - min (length xs) (nat a)) (drop (min (length xs) (nat a)) xs)
        = take (nat b - nat a) (drop (nat a) xs)"
  proof (cases "nat a \<le> length xs")
    case True
    then show ?thesis by (cases "nat b \<le> length xs") (simp_all add: min_def)
  next
    case False
    then show ?thesis by (simp add: min_def)
  qed
  with assms show ?thesis by (simp add: getslice_def slice_bound_def)
qed

lemma get_neigh_row:
  assumes "0 \<le> w" "w + 1 < int (length indptr)" "\<forall>p \<in> set indptr. 0 \<le> p"
  shows "get_neigh beyond w indices indptr = csr_row indices indptr w"
proof -
  have a: "getitem beyond indptr w = indptr ! nat w"
    using assms by (simp add: getitem_in_range)
  have b: "getitem beyond indptr (w + 1) = indptr ! nat (w + 1)"
    using assms by (simp add: getitem_in_range)
  have "0 \<le> indptr ! nat w" "0 \<le> indptr ! nat (w + 1)"
    using assms by (simp_all add: nat_less_iff)
  then show ?thesis
    by (simp add: get_neigh_def a b getslice_nonneg csr_row_def)
qed

lemma set_csr_row: "set (csr_row indices indptr w) \<subseteq> set indices"
  by (auto simp: csr_row_def dest: in_set_takeD in_set_dropD)

lemma egonet_in_range:
  assumes "valid_csr N indices indptr"
  shows "set (csr_row indices indptr w) \<subseteq> {0..<int N}"
  using assms set_csr_row[of indices indptr w] by (auto simp: valid_csr_def)

lemma get_neigh_valid:
  assumes "valid_csr N indices indptr" "w \<in> {0..<int N}"
  shows "get_neigh beyond w indices indptr = csr_row indices indptr w"
  using assms by (intro get_neigh_row) (simp_all add: valid_csr_def)

subsection \<open>Pair counts\<close>

lemma pair_count_cong:
  assumes "\<And>w. w \<in> A \<Longrightarrow> row2 w = row w"
  shows "pair_count row2 A P = pair_count row A P"
  unfolding pair_count_def by (rule sum.cong) (simp_all add: assms)

lemma sum_list_distinct_set:
  "distinct ws \<Longrightarrow> (\<Sum>w\<leftarrow>ws. f w) = (\<Sum>w \<in> set ws. (f w :: nat))"
  by (simp add: sum.distinct_set_conv_list)

lemma pair_count_py_set:
  "(\<Sum>w\<leftarrow>py_set xs. length (filter P (row w))) = pair_count row (set xs) P"
  by (simp add: pair_count_def py_set_def sum_list_distinct_set)

text \<open>
  \<open>pair_count\<close> is the number of pairs of a node \<open>w\<close> of \<open>A\<close> and a position of the row
  of \<open>w\<close> whose entry satisfies \<open>P\<close>: an entry that occurs twice in a row is counted twice.
\<close>

lemma pair_count_card:
  assumes "finite A"
  shows "pair_count row A P = card {(w, j). w \<in> A \<and> j < length (row w) \<and> P (row w ! j)}"
proof -
  have "{(w, j). w \<in> A \<and> j < length (row w) \<and> P (row w ! j)}
          = (SIGMA w:A. {j. j < length (row w) \<and> P (row w ! j)})"
    by auto
  moreover have "card (SIGMA w:A. {j. j < length (row w) \<and> P (row w ! j)})
          = (\<Sum>w \<in> A. card {j. j < length (row w) \<and> P (row w ! j)})"
    using assms by (intro card_SigmaI) simp_all
  ultimately show ?thesis
    by (simp add: pair_count_def length_filter_conv_card)
qed

subsection \<open>The undirected counter computes \<open>local_pairs\<close>\<close>

lemma foldl_local_visit:
  "foldl (local_visit egonet) n row = n + int (length (filter (\<lambda>x. x \<in> set egonet) row))"
  by (induction row arbitrary: n) (simp_all add: local_visit_def)

lemma foldl_local_neigh:
  "foldl (local_neigh_body beyond egonet indices indptr) n ws
     = n + int (\<Sum>w\<leftarrow>ws. length (filter (\<lambda>x. x \<in> set egonet) (get_neigh beyond w indices indptr)))"
  by (induction ws arbitrary: n) (simp_all add: local_neigh_body_def foldl_local_visit)

lemma local_count_rows:
  "local_count beyond indices indptr v
     = int (pair_count (\<lambda>w. get_neigh beyond w indices indptr)
              (set (get_neigh beyond (int v) indices indptr))
              (\<lambda>x. x \<in> set (get_neigh beyond (int v) indices indptr)))"
proof -
  have s: "set (py_set xs) = set xs" for xs by (simp add: py_set_def)
  show ?thesis
    by (simp add: local_count_def Let_def foldl_local_neigh s
        pair_count_py_set[where row = "\<lambda>w. get_neigh beyond w indices indptr"])
qed

lemma local_count_valid:
  assumes "valid_csr N indices indptr" "v < N"
  shows "local_count beyond indices indptr v = int (local_pairs indices indptr v)"
proof -
  have r: "get_neigh beyond (int v) indices indptr = csr_row indices indptr (int v)"
    using assms by (intro get_neigh_valid) simp_all
  have "pair_count (\<lambda>w. get_neigh beyond w indices indptr) (set (csr_row indices indptr (int v))) P
          = pair_count (csr_row indices indptr) (set (csr_row indices indptr (int v))) P" for P
    using egonet_in_range[OF assms(1), of "int v"]
    by (intro pair_count_cong get_neigh_valid[OF assms(1)]) auto
  then show ?thesis
    by (simp add: local_count_rows r local_pairs_def Let_def)
qed

text \<open>Visiting nodes in any order: each visited slot is overwritten, the others are kept.\<close>

lemma foldl_local_node:
  "foldl (local_node beyond indices indptr) arr order
     = foldl (\<lambda>a v. a[v := local_count beyond indices indptr v]) arr order"
  by (induction order arbitrary: arr) (simp_all add: local_node_def)

lemma foldl_assign_length: "length (foldl (\<lambda>a v. a[v := f v]) arr order) = length arr"
  by (induction order arbitrary: arr) simp_all

lemma foldl_assign_nth:
  "i < length arr \<Longrightarrow>
   foldl (\<lambda>a v. a[v := f v]) arr order ! i = (if i \<in> set order then f i else arr ! i)"
  by (induction order arbitrary: arr) (auto simp: nth_list_update)

lemma foldl_assign_all:
  assumes "set order = {..<length arr}"
  shows "foldl (\<lambda>a v. a[v := f v]) arr order = map f [0..<length arr]"
  by (rule nth_equalityI) (simp_all add: foldl_assign_length foldl_assign_nth assms)

lemma local_triangles_rows:
  assumes "length indptr = N + 1"
  shows "count_number_local_triangles beyond indices indptr
           = Inr (map (local_count beyond indices indptr) [0..<N])"
proof -
  have "set [0..<N] = {..<length (zeros N)}" by (auto simp: zeros_def)
  from foldl_assign_all[OF this, of "local_count beyond indices indptr"]
  show ?thesis
    by (simp add: count_number_local_triangles_def assms foldl_local_node) (simp add: zeros_def)
qed

lemma local_triangles_valid:
  assumes "valid_csr N indices indptr"
  shows "count_number_local_triangles beyond indices indptr
           = Inr (map (\<lambda>v. int (local_pairs indices indptr v)) [0..<N])"
proof -
  have len: "length indptr = N + 1" using assms by (simp add: valid_csr_def)
  show ?thesis
    unfolding local_triangles_rows[OF len]
    by (simp add: local_count_valid[OF assms])
qed

subsection \<open>The directed counter computes the four pair counts\<close>

lemma add_at_zero: "add_at arr v 0 = arr"
  by (simp add: add_at_def)

lemma add_at_incr: "add_at (incr arr v) v k = add_at arr v (k + 1)"
  by (cases "v < length arr") (simp_all add: add_at_def incr_def list_update_beyond algebra_simps)

lemma add_at_add_at: "add_at (add_at arr v j) v k = add_at arr v (j + k)"
  by (cases "v < length arr") (simp_all add: add_at_def list_update_beyond add.assoc)

lemma foldl_out_visit:
  "foldl (out_visit v oe ie) st row
     = st\<lparr>num_out_triangles :=
             add_at (num_out_triangles st) v (int (length (filter (\<lambda>x. x \<noteq> int v \<and> x \<in> set oe) row))),
          num_cycle_triangles :=
             add_at (num_cycle_triangles st) v (int (length (filter (\<lambda>x. x \<noteq> int v \<and> x \<in> set ie) row)))\<rparr>"
proof (induction row arbitrary: st)
  case Nil
  show ?case by (simp add: add_at_zero)
next
  case (Cons x row)
  show ?case
    unfolding foldl_Cons Cons.IH
    by (simp add: out_visit_def add_at_incr Let_def add.commute)
qed

lemma foldl_in_visit:
  "foldl (in_visit v oe ie) st row
     = st\<lparr>num_middle_triangles :=
             add_at (num_middle_triangles st) v (int (length (filter (\<lambda>x. x \<noteq> int v \<and> x \<in> set oe) row))),
          num_in_triangles :=
             add_at (num_in_triangles st) v (int (length (filter (\<lambda>x. x \<noteq> int v \<and> x \<in> set ie) row)))\<rparr>"
proof (induction row arbitrary: st)
  case Nil
  show ?case by (simp add: add_at_zero)
next
  case (Cons x row)
  show ?case
    unfolding foldl_Cons Cons.IH
    by (simp add: in_visit_def add_at_incr Let_def add.commute)
qed

lemma foldl_out_neigh:
  "foldl (motif_neigh_body (out_visit v oe ie) beyond_out out_indices out_indptr) st ws
     = st\<lparr>num_out_triangles :=
             add_at (num_out_triangles st) v
               (int (\<Sum>w\<leftarrow>ws. length (filter (\<lambda>x. x \<noteq> int v \<and> x \<in> set oe)
                                         (get_neigh beyond_out w out_indices out_indptr)))),
          num_cycle_triangles :=
             add_at (num_cycle_triangles st) v
               (int (\<Sum>w\<leftarrow>ws. length (filter (\<lambda>x. x \<noteq> int v \<and> x \<in> set ie)
                                         (get_neigh beyond_out w out_indices out_indptr))))\<rparr>"
proof (induction ws arbitrary: st)
  case Nil
  show ?case by (simp add: add_at_zero)
next
  case (Cons w ws)
  then show ?case
    by (simp add: motif_neigh_body_def foldl_out_visit add_at_add_at)
qed

lemma foldl_in_neigh:
  "foldl (motif_neigh_body (in_visit v oe ie) beyond_out out_indices out_indptr) st ws
     = st\<lparr>num_middle_triangles :=
             add_at (num_middle_triangles st) v
               (int (\<Sum>w\<leftarrow>ws. length (filter (\<lambda>x. x \<noteq> int v \<and> x \<in> set oe)
                                         (get_neigh beyond_out w out_indices out_indptr)))),
          num_in_triangles :=
             add_at (num_in_triangles st) v
               (int (\<Sum>w\<leftarrow>ws. length (filter (\<lambda>x. x \<noteq> int v \<and> x \<in> set ie)
                                         (get_neigh beyond_out w out_indices out_indptr))))\<rparr>"
proof (induction ws arbitrary: st)
  case Nil
  show ?case by (simp add: add_at_zero)
next
  case (Cons w ws)
  then show ?case
    by (simp add: motif_neigh_body_def foldl_in_visit add_at_add_at)
qed

lemma directed_node_rows:
  "directed_node beyond_out beyond_in out_indices out_indptr in_indices in_indptr st v
     = node_effect
         (\<lambda>v. int (kernel_out beyond_out out_indices out_indptr v))
         (\<lambda>v. int (kernel_in beyond_out beyond_in out_indices out_indptr in_indices in_indptr v))
         (\<lambda>v. int (kernel_cycle beyond_out beyond_in out_indices out_indptr in_indices in_indptr v))
         (\<lambda>v. int (kernel_middle beyond_out beyond_in out_indices out_indptr in_indices in_indptr v))
         st v"
proof -
  have s: "set (py_set xs) = set xs" for xs by (simp add: py_set_def)
  let ?row = "\<lambda>w. get_neigh beyond_out w out_indices out_indptr"
  note pc = pair_count_py_set[where row = ?row]
  show ?thesis
    unfolding directed_node_def Let_def foldl_out_neigh foldl_in_neigh
    by (simp add: node_effect_def kernel_out_def kernel_in_def kernel_cycle_def kernel_middle_def
        walk_count_def pc s)
qed

lemma foldl_node_effect:
  "foldl (node_effect f_out f_in f_cycle f_middle) st order
     = \<lparr>num_out_triangles = foldl (\<lambda>a v. add_at a v (f_out v)) (num_out_triangles st) order,
        num_in_triangles = foldl (\<lambda>a v. add_at a v (f_in v)) (num_in_triangles st) order,
        num_cycle_triangles = foldl (\<lambda>a v. add_at a v (f_cycle v)) (num_cycle_triangles st) order,
        num_middle_triangles = foldl (\<lambda>a v. add_at a v (f_middle v)) (num_middle_triangles st) order\<rparr>"
  by (induction order arbitrary: st) (simp_all add: node_effect_def)

lemma foldl_directed_node:
  "foldl (directed_node beyond_out beyond_in out_indices out_indptr in_indices in_indptr) st order
     = foldl (node_effect
         (\<lambda>v. int (kernel_out beyond_out out_indices out_indptr v))
         (\<lambda>v. int (kernel_in beyond_out beyond_in out_indices out_indptr in_indices in_indptr v))
         (\<lambda>v. int (kernel_cycle beyond_out beyond_in out_indices out_indptr in_indices in_indptr v))
         (\<lambda>v. int (kernel_middle beyond_out beyond_in out_indices out_indptr in_indices in_indptr v)))
         st order"
  by (induction order arbitrary: st) (simp_all add: directed_node_rows)

lemma foldl_add_at_length: "length (foldl (\<lambda>a v. add_at a v (f v)) arr order) = length arr"
  by (induction order arbitrary: arr) (simp_all add: add_at_def)

lemma foldl_add_at_nth:
  "distinct order \<Longrightarrow> i < length arr \<Longrightarrow>
   foldl (\<lambda>a v. add_at a v (f v)) arr order ! i
     = (if i \<in> set order then arr ! i + f i else arr ! i)"
proof (induction order arbitrary: arr)
  case Nil
  then show ?case by simp
next
  case (Cons a order)
  have "i < length (add_at arr a (f a))" using Cons.prems by (simp add: add_at_def)
  moreover have "distinct order" using Cons.prems by simp
  ultimately have "foldl (\<lambda>a v. add_at a v (f v)) (add_at arr a (f a)) order ! i
      = (if i \<in> set order then add_at arr a (f a) ! i + f i else add_at arr a (f a) ! i)"
    by (rule Cons.IH[rotated])
  moreover have "i \<in> set order \<Longrightarrow> a \<noteq> i" using Cons.prems by auto
  ultimately show ?case using Cons.prems
    by (auto simp: add_at_def nth_list_update)
qed

lemma foldl_add_at_zeros:
  assumes "distinct order" "set order = {..<n}"
  shows "foldl (\<lambda>a v. add_at a v (f v)) (zeros n) order = map f [0..<n]"
  by (rule nth_equalityI)
    (simp_all add: foldl_add_at_length foldl_add_at_nth assms, simp_all add: zeros_def)

lemma triangles_directed_rows:
  assumes "length out_indptr = N + 1"
  shows "count_number_triangles_directed beyond_out beyond_in
           out_indices out_indptr in_indices in_indptr
     = Inr (map (\<lambda>v. int (kernel_out beyond_out out_indices out_indptr v)) [0..<N],
            map (\<lambda>v. int (kernel_in beyond_out beyond_in out_indices out_indptr in_indices in_indptr v)) [0..<N],
            map (\<lambda>v. int (kernel_cycle beyond_out beyond_in out_indices out_indptr in_indices in_indptr v)) [0..<N],
            map (\<lambda>v. int (kernel_middle beyond_out beyond_in out_indices out_indptr in_indices in_indptr v)) [0..<N])"
proof -
  have "distinct [0..<N]" "set [0..<N] = {..<N}" by auto
  note z = foldl_add_at_zeros[OF this]
  show ?thesis
    by (simp add: count_number_triangles_directed_def assms foldl_directed_node
        foldl_node_effect z)
qed

lemma kernel_counts_valid:
  assumes vo: "valid_csr N out_indices out_indptr" and vi: "valid_csr N in_indices in_indptr"
    and v: "v < N"
  shows "kernel_out beyond_out out_indices out_indptr v = out_pairs out_indices out_indptr v"
    and "kernel_in beyond_out beyond_in out_indices out_indptr in_indices in_indptr v
           = in_pairs out_indices out_indptr in_indices in_indptr v"
    and "kernel_cycle beyond_out beyond_in out_indices out_indptr in_indices in_indptr v
           = cycle_pairs out_indices out_indptr in_indices in_indptr v"
    and "kernel_middle beyond_out beyond_in out_indices out_indptr in_indices in_indptr v
           = middle_pairs out_indices out_indptr in_indices in_indptr v"
proof -
  let ?O = "csr_row out_indices out_indptr (int v)" and ?I = "csr_row in_indices in_indptr (int v)"
  have ro: "get_neigh beyond_out (int v) out_indices out_indptr = ?O"
    using vo v by (intro get_neigh_valid) simp_all
  have ri: "get_neigh beyond_in (int v) in_indices in_indptr = ?I"
    using vi v by (intro get_neigh_valid) simp_all
  have pO: "pair_count (\<lambda>w. get_neigh beyond_out w out_indices out_indptr) (set ?O) P
          = pair_count (csr_row out_indices out_indptr) (set ?O) P" for P
    using egonet_in_range[OF vo, of "int v"]
    by (intro pair_count_cong get_neigh_valid[OF vo]) auto
  have pI: "pair_count (\<lambda>w. get_neigh beyond_out w out_indices out_indptr) (set ?I) P
          = pair_count (csr_row out_indices out_indptr) (set ?I) P" for P
    using egonet_in_range[OF vi, of "int v"]
    by (intro pair_count_cong get_neigh_valid[OF vo]) auto
  show "kernel_out beyond_out out_indices out_indptr v = out_pairs out_indices out_indptr v"
    by (simp add: kernel_out_def walk_count_def ro pO out_pairs_def Let_def)
  show "kernel_in beyond_out beyond_in out_indices out_indptr in_indices in_indptr v
           = in_pairs out_indices out_indptr in_indices in_indptr v"
    by (simp add: kernel_in_def walk_count_def ri pI in_pairs_def Let_def)
  show "kernel_cycle beyond_out beyond_in out_indices out_indptr in_indices in_indptr v
           = cycle_pairs out_indices out_indptr in_indices in_indptr v"
    by (simp add: kernel_cycle_def walk_count_def ro ri pO cycle_pairs_def Let_def)
  show "kernel_middle beyond_out beyond_in out_indices out_indptr in_indices in_indptr v
           = middle_pairs out_indices out_indptr in_indices in_indptr v"
    by (simp add: kernel_middle_def walk_count_def ro ri pI middle_pairs_def Let_def)
qed

lemma triangles_directed_valid:
  assumes "valid_csr N out_indices out_indptr" "valid_csr N in_indices in_indptr"
  shows "count_number_triangles_directed beyond_out beyond_in
           out_indices out_indptr in_indices in_indptr
     = Inr (map (\<lambda>v. int (out_pairs out_indices out_indptr v)) [0..<N],
            map (\<lambda>v. int (in_pairs out_indices out_indptr in_indices in_indptr v)) [0..<N],
            map (\<lambda>v. int (cycle_pairs out_indices out_indptr in_indices in_indptr v)) [0..<N],
            map (\<lambda>v. int (middle_pairs out_indices out_indptr in_indices in_indptr v)) [0..<N])"
proof -
  have len: "length out_indptr = N + 1" using assms(1) by (simp add: valid_csr_def)
  show ?thesis
    unfolding triangles_directed_rows[OF len]
    by (simp add: kernel_counts_valid[OF assms])
qed

subsection \<open>Concrete graphs\<close>

text \<open>
  C3. The undirected triangle on the nodes 0, 1 and 2, every edge stored in both directions
  and nothing else stored: the rows hold \<open>{1, 2}\<close>, \<open>{0, 2}\<close> and \<open>{0, 1}\<close>. The local
  counter returns 2 for each of the three nodes, in whichever order each row lists its two
  entries.
\<close>

theorem C3_undirected_triangle:
  "count_number_local_triangles beyond [1, 2, 0, 2, 0, 1] [0, 2, 4, 6] = Inr [2, 2, 2]
   \<and> count_number_local_triangles beyond [1, 2, 0, 2, 1, 0] [0, 2, 4, 6] = Inr [2, 2, 2]
   \<and> count_number_local_triangles beyond [1, 2, 2, 0, 0, 1] [0, 2, 4, 6] = Inr [2, 2, 2]
   \<and> count_number_local_triangles beyond [1, 2, 2, 0, 1, 0] [0, 2, 4, 6] = Inr [2, 2, 2]
   \<and> count_number_local_triangles beyond [2, 1, 0, 2, 0, 1] [0, 2, 4, 6] = Inr [2, 2, 2]
   \<and> count_number_local_triangles beyond [2, 1, 0, 2, 1, 0] [0, 2, 4, 6] = Inr [2, 2, 2]
   \<and> count_number_local_triangles beyond [2, 1, 2, 0, 0, 1] [0, 2, 4, 6] = Inr [2, 2, 2]
   \<and> count_number_local_triangles beyond [2, 1, 2, 0, 1, 0] [0, 2, 4, 6] = Inr [2, 2, 2]"
  by code_simp

text \<open>
  C4. The directed 3-cycle 0 \<rightarrow> 1 \<rightarrow> 2 \<rightarrow> 0 and no other edge, with the in-CSR the transpose
  of the out-CSR: the cycle counter is 1 at each node and the out, in and middleman counters
  are 0 at each node. The result tuple is (out, in, cycle, middleman). The second conjunct is
  the cycle in the other direction, 0 \<rightarrow> 2 \<rightarrow> 1 \<rightarrow> 0.
\<close>

theorem C4_directed_cycle:
  "count_number_triangles_directed beyond_out beyond_in [1, 2, 0] [0, 1, 2, 3] [2, 0, 1] [0, 1, 2, 3]
     = Inr ([0, 0, 0], [0, 0, 0], [1, 1, 1], [0, 0, 0])
   \<and> count_number_triangles_directed beyond_out beyond_in [2, 0, 1] [0, 1, 2, 3] [1, 2, 0] [0, 1, 2, 3]
     = Inr ([0, 0, 0], [0, 0, 0], [1, 1, 1], [0, 0, 0])"
  by code_simp

subsection \<open>The counting rules\<close>

text \<open>
  C1. On a valid CSR pair over \<open>N = len(out_indptr) - 1\<close> nodes the directed counter returns
  four arrays of length \<open>N\<close>, in the order out, in, cycle, middleman. At every node \<open>v\<close>:
  the out entry is the number of pairs \<open>(w, x)\<close>, \<open>w\<close> in the set of out-neighbours of \<open>v\<close>
  and \<open>x\<close> an entry (each occurrence counted) of the out-row of \<open>w\<close> with \<open>x \<noteq> v\<close> and \<open>x\<close>
  in the set of out-neighbours of \<open>v\<close>; the cycle entry counts the same pairs with \<open>x\<close> in
  the set of in-neighbours of \<open>v\<close>; the middleman entry is the number of pairs \<open>(y, z)\<close>,
  \<open>y\<close> in the set of in-neighbours of \<open>v\<close> and \<open>z\<close> an entry of the out-row of \<open>y\<close> with
  \<open>z \<noteq> v\<close> and \<open>z\<close> in the set of out-neighbours of \<open>v\<close>; the in entry counts the same
  pairs with \<open>z\<close> in the set of in-neighbours of \<open>v\<close>. Only the entry equal to \<open>v\<close> is left
  out: a self-loop \<open>w = v\<close> or \<open>y = v\<close> stays in the egonet.
\<close>

theorem C1_directed_motifs:
  assumes "valid_csr N out_indices out_indptr" "valid_csr N in_indices in_indptr"
  shows "\<exists>out_triangles in_triangles cycle_triangles middleman_triangles.
           count_number_triangles_directed beyond_out beyond_in
               out_indices out_indptr in_indices in_indptr
             = Inr (out_triangles, in_triangles, cycle_triangles, middleman_triangles) \<and>
           length out_triangles = N \<and> length in_triangles = N \<and>
           length cycle_triangles = N \<and> length middleman_triangles = N \<and>
           (\<forall>v < N.
              out_triangles ! v = int (out_pairs out_indices out_indptr v) \<and>
              cycle_triangles ! v = int (cycle_pairs out_indices out_indptr in_indices in_indptr v) \<and>
              middleman_triangles ! v = int (middle_pairs out_indices out_indptr in_indices in_indptr v) \<and>
              in_triangles ! v = int (in_pairs out_indices out_indptr in_indices in_indptr v))"
  using triangles_directed_valid[OF assms] by simp

text \<open>
  The witness is the graph with the edges 0 \<rightarrow> 1, 0 \<rightarrow> 2 and 1 \<rightarrow> 2: the out-rows are
  \<open>[1, 2]\<close>, \<open>[2]\<close>, \<open>[]\<close> and the in-rows \<open>[]\<close>, \<open>[0]\<close>, \<open>[0, 1]\<close>.
\<close>

theorem C1_directed_motifs_witness:
  "valid_csr 3 [1, 2, 2] [0, 2, 3, 3] \<and> valid_csr 3 [0, 0, 1] [0, 0, 1, 3] \<and>
   (\<exists>out_triangles in_triangles cycle_triangles middleman_triangles.
      count_number_triangles_directed (\<lambda>_. 0) (\<lambda>_. 0) [1, 2, 2] [0, 2, 3, 3] [0, 0, 1] [0, 0, 1, 3]
        = Inr (out_triangles, in_triangles, cycle_triangles, middleman_triangles) \<and>
      length out_triangles = 3 \<and> length in_triangles = 3 \<and>
      length cycle_triangles = 3 \<and> length middleman_triangles = 3 \<and>
      (\<forall>v < 3.
         out_triangles ! v = int (out_pairs [1, 2, 2] [0, 2, 3, 3] v) \<and>
         cycle_triangles ! v = int (cycle_pairs [1, 2, 2] [0, 2, 3, 3] [0, 0, 1] [0, 0, 1, 3] v) \<and>
         middleman_triangles ! v = int (middle_pairs [1, 2, 2] [0, 2, 3, 3] [0, 0, 1] [0, 0, 1, 3] v) \<and>
         in_triangles ! v = int (in_pairs [1, 2, 2] [0, 2, 3, 3] [0, 0, 1] [0, 0, 1, 3] v)))"
proof -
  have h1: "valid_csr 3 [1, 2, 2] [0, 2, 3, 3]" by (simp add: valid_csr_def)
  have h2: "valid_csr 3 [0, 0, 1] [0, 0, 1, 3]" by (simp add: valid_csr_def)
  from C1_directed_motifs[OF h1 h2, of "\<lambda>_. 0" "\<lambda>_. 0"] h1 h2 show ?thesis by blast
qed

text \<open>
  C2. On a valid CSR over \<open>N = len(indptr) - 1\<close> nodes the undirected counter returns an
  array of length \<open>N\<close> whose entry at \<open>v\<close> is the number of ordered pairs \<open>(u, x)\<close>, \<open>u\<close> in
  the set of neighbours of \<open>v\<close> (a repeated entry of the row of \<open>v\<close> gives one \<open>u\<close>) and
  \<open>x\<close> an entry, each occurrence counted, of the row of \<open>u\<close> that is in that set. Neither
  \<open>u = v\<close> nor \<open>x = v\<close> is left out.
\<close>

theorem C2_local_triangles:
  assumes "valid_csr N indices indptr"
  shows "\<exists>counts. count_number_local_triangles beyond indices indptr = Inr counts \<and>
           length counts = N \<and>
           (\<forall>v < N. counts ! v = int (local_pairs indices indptr v))"
  using local_triangles_valid[OF assms] by simp

text \<open>
  The witness has a self-loop at node 0 and a doubled edge 1 \<rightarrow> 0: rows \<open>[0, 1]\<close> and
  \<open>[0, 0]\<close>.
\<close>

theorem C2_local_triangles_witness:
  "valid_csr 2 [0, 1, 0, 0] [0, 2, 4] \<and>
   (\<exists>counts. count_number_local_triangles (\<lambda>_. 0) [0, 1, 0, 0] [0, 2, 4] = Inr counts \<and>
      length counts = 2 \<and>
      (\<forall>v < 2. counts ! v = int (local_pairs [0, 1, 0, 0] [0, 2, 4] v)))"
proof -
  have h: "valid_csr 2 [0, 1, 0, 0] [0, 2, 4]" by (simp add: valid_csr_def)
  from C2_local_triangles[OF h, of "\<lambda>_. 0"] h show ?thesis by blast
qed

subsection \<open>Normal termination\<close>

lemma valid_csr_well_formed: "valid_csr N indices indptr \<Longrightarrow> well_formed_csr N indices indptr"
  by (simp add: valid_csr_def well_formed_csr_def)



subsection \<open>The order of iteration over an egonet\<close>

lemma local_neigh_loop_order:
  assumes "distinct ws" "distinct ws'" "set ws = set ws'"
  shows "foldl (local_neigh_body beyond egonet indices indptr) n ws
           = foldl (local_neigh_body beyond egonet indices indptr) n ws'"
  by (simp add: foldl_local_neigh sum_list_distinct_set assms)

lemma motif_loop_order:
  assumes "distinct ws" "distinct ws'" "set ws = set ws'"
  shows "foldl (motif_neigh_body (out_visit v oe ie) beyond_out out_indices out_indptr) st ws
           = foldl (motif_neigh_body (out_visit v oe ie) beyond_out out_indices out_indptr) st ws'"
    and "foldl (motif_neigh_body (in_visit v oe ie) beyond_out out_indices out_indptr) st ws
           = foldl (motif_neigh_body (in_visit v oe ie) beyond_out out_indices out_indptr) st ws'"
  by (simp_all add: foldl_out_neigh foldl_in_neigh sum_list_distinct_set assms)

subsection \<open>No counter exceeds the number of stored edges\<close>

lemma length_csr_row_le:
  "length (csr_row indices indptr w) \<le> nat (indptr ! nat (w + 1)) - nat (indptr ! nat w)"
  by (simp add: csr_row_def)

lemma telescope:
  fixes q :: "nat \<Rightarrow> nat"
  assumes "\<And>k. k < n \<Longrightarrow> q k \<le> q (Suc k)"
  shows "(\<Sum>k<n. q (Suc k) - q k) = q n - q 0 \<and> q 0 \<le> q n"
  using assms
proof (induction n)
  case 0
  show ?case by simp
next
  case (Suc n)
  then have "(\<Sum>k<n. q (Suc k) - q k) = q n - q 0 \<and> q 0 \<le> q n" by simp
  moreover have "q n \<le> q (Suc n)" using Suc.prems by simp
  ultimately show ?case by simp
qed

lemma sum_rows_le:
  assumes "valid_csr N indices indptr"
  shows "(\<Sum>k<N. length (csr_row indices indptr (int k))) \<le> length indices"
proof -
  have len: "length indptr = N + 1" and srt: "sorted indptr"
    and lst: "last indptr = int (length indices)"
    using assms by (simp_all add: valid_csr_def)
  define q where "q k = nat (indptr ! k)" for k
  have mono: "q k \<le> q (Suc k)" if "k < N" for k
  proof -
    have "indptr ! k \<le> indptr ! Suc k"
      using that srt len by (intro sorted_nth_mono) simp_all
    then show ?thesis by (simp add: q_def)
  qed
  have "(\<Sum>k<N. length (csr_row indices indptr (int k))) \<le> (\<Sum>k<N. q (Suc k) - q k)"
  proof (rule sum_mono)
    fix k
    have "nat (int k + 1) = Suc k" by simp
    with length_csr_row_le[of indices indptr "int k"]
    show "length (csr_row indices indptr (int k)) \<le> q (Suc k) - q k"
      by (simp add: q_def)
  qed
  also have "\<dots> = q N - q 0" using telescope[of N q] mono by simp
  also have "\<dots> \<le> q N" by simp
  also have "q N = length indices"
  proof -
    have "indptr \<noteq> []" using len by auto
    then have "last indptr = indptr ! N" using len by (simp add: last_conv_nth)
    then show ?thesis using lst by (simp add: q_def)
  qed
  finally show ?thesis .
qed

lemma pair_count_le_length:
  assumes "valid_csr N indices indptr" "A \<subseteq> {0..<int N}"
  shows "pair_count (csr_row indices indptr) A P \<le> length indices"
proof -
  have fin: "finite {0..<int N}" by simp
  have "pair_count (csr_row indices indptr) A P \<le> (\<Sum>w \<in> A. length (csr_row indices indptr w))"
    unfolding pair_count_def by (rule sum_mono) simp
  also have "\<dots> \<le> (\<Sum>w \<in> {0..<int N}. length (csr_row indices indptr w))"
    by (rule sum_mono2[OF fin assms(2)]) simp
  also have "{0..<int N} = int ` {..<N}"
    using image_int_atLeastLessThan[of 0 N] by (simp add: lessThan_atLeast0)
  also have "(\<Sum>w \<in> int ` {..<N}. length (csr_row indices indptr w))
               = (\<Sum>k<N. length (csr_row indices indptr (int k)))"
    by (simp add: sum.reindex inj_on_def)
  also have "\<dots> \<le> length indices" by (rule sum_rows_le[OF assms(1)])
  finally show ?thesis .
qed

lemma counters_bounded:
  assumes "valid_csr N out_indices out_indptr" "valid_csr N in_indices in_indptr"
  shows "out_pairs out_indices out_indptr v \<le> length out_indices"
    and "cycle_pairs out_indices out_indptr in_indices in_indptr v \<le> length out_indices"
    and "middle_pairs out_indices out_indptr in_indices in_indptr v \<le> length out_indices"
    and "in_pairs out_indices out_indptr in_indices in_indptr v \<le> length out_indices"
    and "local_pairs out_indices out_indptr v \<le> length out_indices"
  unfolding out_pairs_def cycle_pairs_def middle_pairs_def in_pairs_def local_pairs_def Let_def
  by (intro pair_count_le_length[OF assms(1)] egonet_in_range[OF assms(1)]
      egonet_in_range[OF assms(2)])+

subsection \<open>Exchanging the out-CSR and the in-CSR\<close>

lemma length_filter_mem:
  assumes "finite B"
  shows "length (filter (\<lambda>x. x \<in> B) xs) = (\<Sum>x \<in> B. count_list xs x)"
proof (induction xs)
  case Nil
  show ?case by simp
next
  case (Cons a xs)
  have "(\<Sum>x \<in> B. count_list (a # xs) x)
          = (\<Sum>x \<in> B. count_list xs x + (if x = a then 1 else 0))"
    by (intro sum.cong) simp_all
  also have "\<dots> = (\<Sum>x \<in> B. count_list xs x) + (\<Sum>x \<in> B. if x = a then 1 else 0)"
    by (simp add: sum.distrib)
  also have "(\<Sum>x \<in> B. if x = a then 1 else 0) = (if a \<in> B then 1 else (0::nat))"
    using assms by (simp add: sum.delta)
  finally show ?case using Cons.IH by simp
qed

lemma pair_count_transpose:
  assumes "transposes N out_indices out_indptr in_indices in_indptr"
    and "A \<subseteq> {0..<int N}" "B \<subseteq> {0..<int N}"
  shows "pair_count (csr_row in_indices in_indptr) A (\<lambda>x. x \<in> B)
           = pair_count (csr_row out_indices out_indptr) B (\<lambda>x. x \<in> A)"
proof -
  have fA: "finite A" and fB: "finite B"
    using assms(2,3) by (auto intro: finite_subset)
  have "pair_count (csr_row in_indices in_indptr) A (\<lambda>x. x \<in> B)
          = (\<Sum>w \<in> A. \<Sum>x \<in> B. count_list (csr_row in_indices in_indptr w) x)"
    by (simp add: pair_count_def length_filter_mem[OF fB])
  also have "\<dots> = (\<Sum>w \<in> A. \<Sum>x \<in> B. count_list (csr_row out_indices out_indptr x) w)"
  proof (intro sum.cong refl)
    fix w x assume "w \<in> A" "x \<in> B"
    then have "w \<in> {0..<int N}" "x \<in> {0..<int N}" using assms(2,3) by auto
    with assms(1) show "count_list (csr_row in_indices in_indptr w) x
        = count_list (csr_row out_indices out_indptr x) w"
      unfolding transposes_def by (metis (no_types))
  qed
  also have "\<dots> = (\<Sum>x \<in> B. \<Sum>w \<in> A. count_list (csr_row out_indices out_indptr x) w)"
    by (rule sum.swap)
  also have "\<dots> = pair_count (csr_row out_indices out_indptr) B (\<lambda>x. x \<in> A)"
    by (simp add: pair_count_def length_filter_mem[OF fA])
  finally show ?thesis .
qed

lemma pair_count_drop_guard:
  assumes "v \<notin> B"
  shows "pair_count row A (\<lambda>x. x \<noteq> v \<and> x \<in> B) = pair_count row A (\<lambda>x. x \<in> B)"
proof -
  have "(\<lambda>x. x \<noteq> v \<and> x \<in> B) = (\<lambda>x. x \<in> B)" using assms by auto
  then show ?thesis by simp
qed

lemma swap_pairs:
  assumes vo: "valid_csr N out_indices out_indptr" and vi: "valid_csr N in_indices in_indptr"
    and tr: "transposes N out_indices out_indptr in_indices in_indptr"
    and slf: "self_loop_free N out_indices out_indptr"
    and v: "v < N"
  shows "out_pairs in_indices in_indptr v = in_pairs out_indices out_indptr in_indices in_indptr v"
    and "in_pairs in_indices in_indptr out_indices out_indptr v = out_pairs out_indices out_indptr v"
    and "cycle_pairs in_indices in_indptr out_indices out_indptr v
           = cycle_pairs out_indices out_indptr in_indices in_indptr v"
proof -
  let ?O = "set (csr_row out_indices out_indptr (int v))"
  let ?I = "set (csr_row in_indices in_indptr (int v))"
  have vr: "int v \<in> {0..<int N}" using v by simp
  have O: "?O \<subseteq> {0..<int N}" by (rule egonet_in_range[OF vo])
  have I: "?I \<subseteq> {0..<int N}" by (rule egonet_in_range[OF vi])
  have nO: "int v \<notin> ?O" using slf vr by (simp add: self_loop_free_def)
  have "count_list (csr_row in_indices in_indptr (int v)) (int v)
          = count_list (csr_row out_indices out_indptr (int v)) (int v)"
    using tr vr by (simp add: transposes_def)
  with nO have nI: "int v \<notin> ?I" by (simp add: count_list_0_iff)
  show "out_pairs in_indices in_indptr v = in_pairs out_indices out_indptr in_indices in_indptr v"
    by (simp add: out_pairs_def in_pairs_def pair_count_drop_guard[OF nI]
        pair_count_transpose[OF tr I I])
  show "in_pairs in_indices in_indptr out_indices out_indptr v = out_pairs out_indices out_indptr v"
    by (simp add: out_pairs_def in_pairs_def pair_count_drop_guard[OF nO]
        pair_count_transpose[OF tr O O])
  show "cycle_pairs in_indices in_indptr out_indices out_indptr v
           = cycle_pairs out_indices out_indptr in_indices in_indptr v"
    by (simp add: cycle_pairs_def pair_count_drop_guard[OF nO] pair_count_drop_guard[OF nI]
        pair_count_transpose[OF tr I O])
qed

text \<open>
  C6. For a graph without self-loops whose out-CSR and in-CSR are valid and exact transposes
  of one another, the call with the two CSR structures exchanged returns the in array of
  the original call as its out array, the out array of the original call as its in array,
  and the same cycle array.
\<close>

theorem C6_swap_out_in:
  assumes "valid_csr N out_indices out_indptr" "valid_csr N in_indices in_indptr"
    and "transposes N out_indices out_indptr in_indices in_indptr"
    and "self_loop_free N out_indices out_indptr"
  shows "\<exists>out_t in_t cycle_t middle_t middle_t'.
           count_number_triangles_directed beyond_out beyond_in
               out_indices out_indptr in_indices in_indptr
             = Inr (out_t, in_t, cycle_t, middle_t) \<and>
           count_number_triangles_directed beyond_in beyond_out
               in_indices in_indptr out_indices out_indptr
             = Inr (in_t, out_t, cycle_t, middle_t')"
proof -
  note sw = swap_pairs[OF assms]
  have "map (\<lambda>v. int (out_pairs in_indices in_indptr v)) [0..<N]
          = map (\<lambda>v. int (in_pairs out_indices out_indptr in_indices in_indptr v)) [0..<N]"
    by (rule map_cong) (simp_all add: sw(1))
  moreover have "map (\<lambda>v. int (in_pairs in_indices in_indptr out_indices out_indptr v)) [0..<N]
          = map (\<lambda>v. int (out_pairs out_indices out_indptr v)) [0..<N]"
    by (rule map_cong) (simp_all add: sw(2))
  moreover have "map (\<lambda>v. int (cycle_pairs in_indices in_indptr out_indices out_indptr v)) [0..<N]
          = map (\<lambda>v. int (cycle_pairs out_indices out_indptr in_indices in_indptr v)) [0..<N]"
    by (rule map_cong) (simp_all add: sw(3))
  ultimately show ?thesis
    unfolding triangles_directed_valid[OF assms(1,2)] triangles_directed_valid[OF assms(2,1)]
    by simp
qed

text \<open>
  The witness is the graph 0 \<rightarrow> 1, 0 \<rightarrow> 2, 1 \<rightarrow> 2, which is not symmetric; its middleman
  array is \<open>[0, 1, 0]\<close> in both calls.
\<close>

theorem C6_swap_out_in_witness:
  "valid_csr 3 [1, 2, 2] [0, 2, 3, 3] \<and> valid_csr 3 [0, 0, 1] [0, 0, 1, 3] \<and>
   transposes 3 [1, 2, 2] [0, 2, 3, 3] [0, 0, 1] [0, 0, 1, 3] \<and>
   self_loop_free 3 [1, 2, 2] [0, 2, 3, 3] \<and>
   count_number_triangles_directed (\<lambda>_. 0) (\<lambda>_. 0) [1, 2, 2] [0, 2, 3, 3] [0, 0, 1] [0, 0, 1, 3]
     = Inr ([1, 0, 0], [0, 0, 1], [0, 0, 0], [0, 1, 0]) \<and>
   (\<exists>out_t in_t cycle_t middle_t middle_t'.
      count_number_triangles_directed (\<lambda>_. 0) (\<lambda>_. 0) [1, 2, 2] [0, 2, 3, 3] [0, 0, 1] [0, 0, 1, 3]
        = Inr (out_t, in_t, cycle_t, middle_t) \<and>
      count_number_triangles_directed (\<lambda>_. 0) (\<lambda>_. 0) [0, 0, 1] [0, 0, 1, 3] [1, 2, 2] [0, 2, 3, 3]
        = Inr (in_t, out_t, cycle_t, middle_t'))"
proof -
  have h1: "valid_csr 3 [1, 2, 2] [0, 2, 3, 3]" by (simp add: valid_csr_def)
  have h2: "valid_csr 3 [0, 0, 1] [0, 0, 1, 3]" by (simp add: valid_csr_def)
  have h3: "transposes 3 [1, 2, 2] [0, 2, 3, 3] [0, 0, 1] [0, 0, 1, 3]" by code_simp
  have h4: "self_loop_free 3 [1, 2, 2] [0, 2, 3, 3]" by code_simp
  have e: "count_number_triangles_directed (\<lambda>_. 0) (\<lambda>_. 0) [1, 2, 2] [0, 2, 3, 3] [0, 0, 1] [0, 0, 1, 3]
     = Inr ([1, 0, 0], [0, 0, 1], [0, 0, 0], [0, 1, 0])" by code_simp
  from C6_swap_out_in[OF h1 h2 h3 h4, of "\<lambda>_. 0" "\<lambda>_. 0"] h1 h2 h3 h4 e
  show ?thesis by blast
qed

subsection \<open>Two disjoint copies of a graph\<close>

lemma pair_count_shift:
  assumes rows: "\<And>w. w \<in> A \<Longrightarrow> row2 (w + c) = map (\<lambda>x. x + c) (row w)"
    and pred: "\<And>x. Q (x + c) = P x"
  shows "pair_count row2 ((\<lambda>w. w + c) ` A) Q = pair_count row A (P :: int \<Rightarrow> bool)"
proof -
  have "pair_count row2 ((\<lambda>w. w + c) ` A) Q
          = (\<Sum>w \<in> A. length (filter Q (row2 (w + c))))"
    unfolding pair_count_def by (subst sum.reindex) (simp_all add: inj_on_def)
  also have "\<dots> = (\<Sum>w \<in> A. length (filter P (row w)))"
  proof (rule sum.cong[OF refl])
    fix w assume "w \<in> A"
    then show "length (filter Q (row2 (w + c))) = length (filter P (row w))"
      by (simp add: rows filter_map comp_def pred)
  qed
  finally show ?thesis by (simp add: pair_count_def)
qed

lemma map_two_copies:
  assumes "\<And>v. v < N \<Longrightarrow> g v = f v" "\<And>v. v < N \<Longrightarrow> g (N + v) = f v"
  shows "map g [0..<2 * N] = map f [0..<N] @ map f [0..<N]"
proof (rule nth_equalityI)
  show "length (map g [0..<2 * N]) = length (map f [0..<N] @ map f [0..<N])" by simp
next
  fix i assume "i < length (map g [0..<2 * N])"
  then have i: "i < 2 * N" by simp
  show "map g [0..<2 * N] ! i = (map f [0..<N] @ map f [0..<N]) ! i"
  proof (cases "i < N")
    case True
    then show ?thesis using i by (simp add: nth_append assms(1))
  next
    case False
    then have "i = N + (i - N)" "i - N < N" using i by simp_all
    then have "g i = f (i - N)" using assms(2) by metis
    then show ?thesis using i False by (simp add: nth_append)
  qed
qed

lemma shifted_pred:
  "(y + c \<noteq> v + c \<and> y + c \<in> (\<lambda>x. x + c) ` B) = (y \<noteq> v \<and> y \<in> (B :: int set))"
  by auto

lemma two_copies_rows:
  assumes "two_copies N indices indptr indices2 indptr2" "v < N"
  shows "csr_row indices2 indptr2 (int v) = csr_row indices indptr (int v)"
    and "csr_row indices2 indptr2 (int (N + v)) = map (\<lambda>x. x + int N) (csr_row indices indptr (int v))"
proof -
  have "int v \<in> {0..<int N}" using assms(2) by simp
  with assms(1) have
    "csr_row indices2 indptr2 (int v) = csr_row indices indptr (int v) \<and>
     csr_row indices2 indptr2 (int v + int N) = map (\<lambda>x. x + int N) (csr_row indices indptr (int v))"
    unfolding two_copies_def by (rule bspec)
  then show "csr_row indices2 indptr2 (int v) = csr_row indices indptr (int v)"
    and "csr_row indices2 indptr2 (int (N + v)) = map (\<lambda>x. x + int N) (csr_row indices indptr (int v))"
    by (simp_all add: add.commute)
qed

lemma two_copies_egonet:
  assumes "two_copies N indices indptr indices2 indptr2" "valid_csr N indices indptr"
    and "w \<in> set (csr_row indices indptr u)"
  shows "csr_row indices2 indptr2 w = csr_row indices indptr w"
    and "csr_row indices2 indptr2 (w + int N) = map (\<lambda>x. x + int N) (csr_row indices indptr w)"
proof -
  have "w \<in> {0..<int N}" using egonet_in_range[OF assms(2), of u] assms(3) by auto
  with assms(1) have
    "csr_row indices2 indptr2 w = csr_row indices indptr w \<and>
     csr_row indices2 indptr2 (w + int N) = map (\<lambda>x. x + int N) (csr_row indices indptr w)"
    unfolding two_copies_def by (rule bspec)
  then show "csr_row indices2 indptr2 w = csr_row indices indptr w"
    and "csr_row indices2 indptr2 (w + int N) = map (\<lambda>x. x + int N) (csr_row indices indptr w)"
    by simp_all
qed

lemma local_pairs_copies:
  assumes tc: "two_copies N indices indptr indices2 indptr2"
    and val: "valid_csr N indices indptr" and v: "v < N"
  shows "local_pairs indices2 indptr2 v = local_pairs indices indptr v"
    and "local_pairs indices2 indptr2 (N + v) = local_pairs indices indptr v"
proof -
  let ?E = "set (csr_row indices indptr (int v))"
  note rv = two_copies_rows[OF tc v]
  show "local_pairs indices2 indptr2 v = local_pairs indices indptr v"
    unfolding local_pairs_def Let_def rv(1)
    by (rule pair_count_cong) (rule two_copies_egonet(1)[OF tc val])
  have "pair_count (csr_row indices2 indptr2) ((\<lambda>w. w + int N) ` ?E)
          (\<lambda>x. x \<in> (\<lambda>w. w + int N) ` ?E)
        = pair_count (csr_row indices indptr) ?E (\<lambda>x. x \<in> ?E)"
    by (rule pair_count_shift) (auto intro: two_copies_egonet(2)[OF tc val])
  then show "local_pairs indices2 indptr2 (N + v) = local_pairs indices indptr v"
    unfolding local_pairs_def Let_def rv(2) by simp
qed

lemma directed_pairs_copies:
  assumes tco: "two_copies N out_indices out_indptr out_indices2 out_indptr2"
    and tci: "two_copies N in_indices in_indptr in_indices2 in_indptr2"
    and vo: "valid_csr N out_indices out_indptr" and vi: "valid_csr N in_indices in_indptr"
    and v: "v < N"
  shows "out_pairs out_indices2 out_indptr2 v = out_pairs out_indices out_indptr v"
    and "out_pairs out_indices2 out_indptr2 (N + v) = out_pairs out_indices out_indptr v"
    and "in_pairs out_indices2 out_indptr2 in_indices2 in_indptr2 v
           = in_pairs out_indices out_indptr in_indices in_indptr v"
    and "in_pairs out_indices2 out_indptr2 in_indices2 in_indptr2 (N + v)
           = in_pairs out_indices out_indptr in_indices in_indptr v"
    and "cycle_pairs out_indices2 out_indptr2 in_indices2 in_indptr2 v
           = cycle_pairs out_indices out_indptr in_indices in_indptr v"
    and "cycle_pairs out_indices2 out_indptr2 in_indices2 in_indptr2 (N + v)
           = cycle_pairs out_indices out_indptr in_indices in_indptr v"
    and "middle_pairs out_indices2 out_indptr2 in_indices2 in_indptr2 v
           = middle_pairs out_indices out_indptr in_indices in_indptr v"
    and "middle_pairs out_indices2 out_indptr2 in_indices2 in_indptr2 (N + v)
           = middle_pairs out_indices out_indptr in_indices in_indptr v"
proof -
  let ?O = "set (csr_row out_indices out_indptr (int v))"
  let ?I = "set (csr_row in_indices in_indptr (int v))"
  let ?sh = "\<lambda>w. w + int N"
  note ro = two_copies_rows[OF tco v] and ri = two_copies_rows[OF tci v]
  have same_O: "pair_count (csr_row out_indices2 out_indptr2) ?O P
                  = pair_count (csr_row out_indices out_indptr) ?O P" for P
    by (rule pair_count_cong) (rule two_copies_egonet(1)[OF tco vo])
  have same_I: "pair_count (csr_row out_indices2 out_indptr2) ?I P
                  = pair_count (csr_row out_indices out_indptr) ?I P" for P
  proof (rule pair_count_cong)
    fix w assume "w \<in> ?I"
    then have "w \<in> {0..<int N}" using egonet_in_range[OF vi, of "int v"] by auto
    with tco show "csr_row out_indices2 out_indptr2 w = csr_row out_indices out_indptr w"
      by (simp add: two_copies_def)
  qed
  have sh_O: "pair_count (csr_row out_indices2 out_indptr2) (?sh ` ?O)
                (\<lambda>x. x \<noteq> int v + int N \<and> x \<in> ?sh ` B)
              = pair_count (csr_row out_indices out_indptr) ?O (\<lambda>x. x \<noteq> int v \<and> x \<in> B)" for B
    by (rule pair_count_shift) (auto intro: two_copies_egonet(2)[OF tco vo])
  have sh_I: "pair_count (csr_row out_indices2 out_indptr2) (?sh ` ?I)
                (\<lambda>x. x \<noteq> int v + int N \<and> x \<in> ?sh ` B)
              = pair_count (csr_row out_indices out_indptr) ?I (\<lambda>x. x \<noteq> int v \<and> x \<in> B)" for B
  proof (rule pair_count_shift)
    fix w assume "w \<in> ?I"
    then have "w \<in> {0..<int N}" using egonet_in_range[OF vi, of "int v"] by auto
    with tco show "csr_row out_indices2 out_indptr2 (w + int N)
        = map (\<lambda>x. x + int N) (csr_row out_indices out_indptr w)"
      by (simp add: two_copies_def)
  qed auto
  have nv: "int (N + v) = int v + int N" by simp
  note ro2 = ro(2)[unfolded nv] and ri2 = ri(2)[unfolded nv]
  show "out_pairs out_indices2 out_indptr2 v = out_pairs out_indices out_indptr v"
    unfolding out_pairs_def Let_def ro(1) by (rule same_O)
  show "in_pairs out_indices2 out_indptr2 in_indices2 in_indptr2 v
           = in_pairs out_indices out_indptr in_indices in_indptr v"
    unfolding in_pairs_def Let_def ri(1) by (rule same_I)
  show "cycle_pairs out_indices2 out_indptr2 in_indices2 in_indptr2 v
           = cycle_pairs out_indices out_indptr in_indices in_indptr v"
    unfolding cycle_pairs_def Let_def ro(1) ri(1) by (rule same_O)
  show "middle_pairs out_indices2 out_indptr2 in_indices2 in_indptr2 v
           = middle_pairs out_indices out_indptr in_indices in_indptr v"
    unfolding middle_pairs_def Let_def ro(1) ri(1) by (rule same_I)
  show "out_pairs out_indices2 out_indptr2 (N + v) = out_pairs out_indices out_indptr v"
    unfolding out_pairs_def Let_def nv ro2 set_map by (rule sh_O)
  show "in_pairs out_indices2 out_indptr2 in_indices2 in_indptr2 (N + v)
           = in_pairs out_indices out_indptr in_indices in_indptr v"
    unfolding in_pairs_def Let_def nv ri2 set_map by (rule sh_I)
  show "cycle_pairs out_indices2 out_indptr2 in_indices2 in_indptr2 (N + v)
           = cycle_pairs out_indices out_indptr in_indices in_indptr v"
    unfolding cycle_pairs_def Let_def nv ro2 ri2 set_map by (rule sh_O)
  show "middle_pairs out_indices2 out_indptr2 in_indices2 in_indptr2 (N + v)
           = middle_pairs out_indices out_indptr in_indices in_indptr v"
    unfolding middle_pairs_def Let_def nv ro2 ri2 set_map by (rule sh_I)
qed

lemma local_pairs_local:
  assumes "csr_row indices2 indptr2 (int v) = csr_row indices indptr (int v)"
    and "\<forall>w \<in> set (csr_row indices indptr (int v)).
           csr_row indices2 indptr2 w = csr_row indices indptr w"
  shows "local_pairs indices2 indptr2 v = local_pairs indices indptr v"
  unfolding local_pairs_def Let_def assms(1)
  by (rule pair_count_cong) (simp add: assms(2))

lemma directed_pairs_local:
  assumes o: "csr_row out_indices2 out_indptr2 (int v) = csr_row out_indices out_indptr (int v)"
    and i: "csr_row in_indices2 in_indptr2 (int v) = csr_row in_indices in_indptr (int v)"
    and n: "\<forall>w \<in> set (csr_row out_indices out_indptr (int v))
                  \<union> set (csr_row in_indices in_indptr (int v)).
              csr_row out_indices2 out_indptr2 w = csr_row out_indices out_indptr w"
  shows "out_pairs out_indices2 out_indptr2 v = out_pairs out_indices out_indptr v"
    and "in_pairs out_indices2 out_indptr2 in_indices2 in_indptr2 v
           = in_pairs out_indices out_indptr in_indices in_indptr v"
    and "cycle_pairs out_indices2 out_indptr2 in_indices2 in_indptr2 v
           = cycle_pairs out_indices out_indptr in_indices in_indptr v"
    and "middle_pairs out_indices2 out_indptr2 in_indices2 in_indptr2 v
           = middle_pairs out_indices out_indptr in_indices in_indptr v"
  unfolding out_pairs_def in_pairs_def cycle_pairs_def middle_pairs_def Let_def o i
  using n by (auto intro!: pair_count_cong)

text \<open>
  C5. Run on a valid CSR that holds two disjoint copies of a valid graph, each counter
  returns the arrays of the graph followed by themselves: the concatenation of the results
  of the two copies, each computed alone (first and second conjunct). More generally, the
  result at a node depends only on what can be reached from it: two valid inputs that have
  the same row at \<open>v\<close> and the same rows at the neighbours of \<open>v\<close> give the same result at
  \<open>v\<close>, whatever the rest of the two graphs is, their numbers of nodes included (third
  conjunct, undirected counter). For the directed counter the rows in question are the
  out-row and the in-row of \<open>v\<close> and the out-rows of its out- and in-neighbours (fourth
  conjunct).
\<close>

theorem C5_two_disjoint_copies:
  "(valid_csr N indices indptr \<and> valid_csr (2 * N) indices2 indptr2 \<and>
    two_copies N indices indptr indices2 indptr2 \<longrightarrow>
      (\<exists>counts. count_number_local_triangles beyond indices indptr = Inr counts \<and>
         count_number_local_triangles beyond2 indices2 indptr2 = Inr (counts @ counts)))
   \<and> (valid_csr N out_indices out_indptr \<and> valid_csr N in_indices in_indptr \<and>
      valid_csr (2 * N) out_indices2 out_indptr2 \<and> valid_csr (2 * N) in_indices2 in_indptr2 \<and>
      two_copies N out_indices out_indptr out_indices2 out_indptr2 \<and>
      two_copies N in_indices in_indptr in_indices2 in_indptr2 \<longrightarrow>
      (\<exists>a b c d.
         count_number_triangles_directed beyond_out beyond_in
             out_indices out_indptr in_indices in_indptr
           = Inr (a, b, c, d) \<and>
         count_number_triangles_directed beyond_out2 beyond_in2
             out_indices2 out_indptr2 in_indices2 in_indptr2
           = Inr (a @ a, b @ b, c @ c, d @ d)))
   \<and> (valid_csr N indices indptr \<and> valid_csr M indices' indptr' \<and> v < N \<and> v < M \<and>
      csr_row indices' indptr' (int v) = csr_row indices indptr (int v) \<and>
      (\<forall>w \<in> set (csr_row indices indptr (int v)).
         csr_row indices' indptr' w = csr_row indices indptr w) \<longrightarrow>
      (\<exists>counts counts'.
         count_number_local_triangles beyond indices indptr = Inr counts \<and>
         count_number_local_triangles beyond2 indices' indptr' = Inr counts' \<and>
         counts' ! v = counts ! v))
   \<and> (valid_csr N out_indices out_indptr \<and> valid_csr N in_indices in_indptr \<and>
      valid_csr M out_indices' out_indptr' \<and> valid_csr M in_indices' in_indptr' \<and>
      v < N \<and> v < M \<and>
      csr_row out_indices' out_indptr' (int v) = csr_row out_indices out_indptr (int v) \<and>
      csr_row in_indices' in_indptr' (int v) = csr_row in_indices in_indptr (int v) \<and>
      (\<forall>w \<in> set (csr_row out_indices out_indptr (int v))
             \<union> set (csr_row in_indices in_indptr (int v)).
         csr_row out_indices' out_indptr' w = csr_row out_indices out_indptr w) \<longrightarrow>
      (\<exists>a b c d a' b' c' d'.
         count_number_triangles_directed beyond_out beyond_in
             out_indices out_indptr in_indices in_indptr
           = Inr (a, b, c, d) \<and>
         count_number_triangles_directed beyond_out2 beyond_in2
             out_indices' out_indptr' in_indices' in_indptr'
           = Inr (a', b', c', d') \<and>
         a' ! v = a ! v \<and> b' ! v = b ! v \<and> c' ! v = c ! v \<and> d' ! v = d ! v))"
proof (intro conjI impI)
  assume "valid_csr N indices indptr \<and> valid_csr (2 * N) indices2 indptr2 \<and>
    two_copies N indices indptr indices2 indptr2"
  then have v1: "valid_csr N indices indptr" and v2: "valid_csr (2 * N) indices2 indptr2"
    and tc: "two_copies N indices indptr indices2 indptr2" by simp_all
  show "\<exists>counts. count_number_local_triangles beyond indices indptr = Inr counts \<and>
         count_number_local_triangles beyond2 indices2 indptr2 = Inr (counts @ counts)"
    unfolding local_triangles_valid[OF v1] local_triangles_valid[OF v2]
    by (simp add: map_two_copies local_pairs_copies[OF tc v1])
next
  assume "valid_csr N out_indices out_indptr \<and> valid_csr N in_indices in_indptr \<and>
      valid_csr (2 * N) out_indices2 out_indptr2 \<and> valid_csr (2 * N) in_indices2 in_indptr2 \<and>
      two_copies N out_indices out_indptr out_indices2 out_indptr2 \<and>
      two_copies N in_indices in_indptr in_indices2 in_indptr2"
  then have vo: "valid_csr N out_indices out_indptr" and vi: "valid_csr N in_indices in_indptr"
    and vo2: "valid_csr (2 * N) out_indices2 out_indptr2"
    and vi2: "valid_csr (2 * N) in_indices2 in_indptr2"
    and tco: "two_copies N out_indices out_indptr out_indices2 out_indptr2"
    and tci: "two_copies N in_indices in_indptr in_indices2 in_indptr2" by simp_all
  note dp = directed_pairs_copies[OF tco tci vo vi]
  show "\<exists>a b c d.
         count_number_triangles_directed beyond_out beyond_in
             out_indices out_indptr in_indices in_indptr
           = Inr (a, b, c, d) \<and>
         count_number_triangles_directed beyond_out2 beyond_in2
             out_indices2 out_indptr2 in_indices2 in_indptr2
           = Inr (a @ a, b @ b, c @ c, d @ d)"
    unfolding triangles_directed_valid[OF vo vi] triangles_directed_valid[OF vo2 vi2]
    by (simp add: map_two_copies dp)
next
  assume "valid_csr N indices indptr \<and> valid_csr M indices' indptr' \<and> v < N \<and> v < M \<and>
      csr_row indices' indptr' (int v) = csr_row indices indptr (int v) \<and>
      (\<forall>w \<in> set (csr_row indices indptr (int v)).
         csr_row indices' indptr' w = csr_row indices indptr w)"
  then have v1: "valid_csr N indices indptr" and v2: "valid_csr M indices' indptr'"
    and v: "v < N" "v < M"
    and r: "csr_row indices' indptr' (int v) = csr_row indices indptr (int v)"
    and n: "\<forall>w \<in> set (csr_row indices indptr (int v)).
         csr_row indices' indptr' w = csr_row indices indptr w" by simp_all
  show "\<exists>counts counts'.
         count_number_local_triangles beyond indices indptr = Inr counts \<and>
         count_number_local_triangles beyond2 indices' indptr' = Inr counts' \<and>
         counts' ! v = counts ! v"
    unfolding local_triangles_valid[OF v1] local_triangles_valid[OF v2]
    using v by (simp add: local_pairs_local[OF r n])
next
  assume "valid_csr N out_indices out_indptr \<and> valid_csr N in_indices in_indptr \<and>
      valid_csr M out_indices' out_indptr' \<and> valid_csr M in_indices' in_indptr' \<and>
      v < N \<and> v < M \<and>
      csr_row out_indices' out_indptr' (int v) = csr_row out_indices out_indptr (int v) \<and>
      csr_row in_indices' in_indptr' (int v) = csr_row in_indices in_indptr (int v) \<and>
      (\<forall>w \<in> set (csr_row out_indices out_indptr (int v))
             \<union> set (csr_row in_indices in_indptr (int v)).
         csr_row out_indices' out_indptr' w = csr_row out_indices out_indptr w)"
  then have vo: "valid_csr N out_indices out_indptr" and vi: "valid_csr N in_indices in_indptr"
    and vo2: "valid_csr M out_indices' out_indptr'" and vi2: "valid_csr M in_indices' in_indptr'"
    and v: "v < N" "v < M"
    and ro: "csr_row out_indices' out_indptr' (int v) = csr_row out_indices out_indptr (int v)"
    and ri: "csr_row in_indices' in_indptr' (int v) = csr_row in_indices in_indptr (int v)"
    and n: "\<forall>w \<in> set (csr_row out_indices out_indptr (int v))
             \<union> set (csr_row in_indices in_indptr (int v)).
         csr_row out_indices' out_indptr' w = csr_row out_indices out_indptr w" by simp_all
  note dl = directed_pairs_local[OF ro ri n]
  show "\<exists>a b c d a' b' c' d'.
         count_number_triangles_directed beyond_out beyond_in
             out_indices out_indptr in_indices in_indptr
           = Inr (a, b, c, d) \<and>
         count_number_triangles_directed beyond_out2 beyond_in2
             out_indices' out_indptr' in_indices' in_indptr'
           = Inr (a', b', c', d') \<and>
         a' ! v = a ! v \<and> b' ! v = b ! v \<and> c' ! v = c ! v \<and> d' ! v = d ! v"
    unfolding triangles_directed_valid[OF vo vi] triangles_directed_valid[OF vo2 vi2]
    using v by (simp add: dl)
qed

text \<open>
  The witness: the graph 0 \<rightarrow> 1, 0 \<rightarrow> 2, 1 \<rightarrow> 2, doubled by \<open>duplicate_csr\<close>, and for the
  last two conjuncts the same graph next to the graph on four nodes that has the further
  edge 3 \<rightarrow> 1, compared at node 0. The undirected counter is run on the out-CSR.
\<close>

theorem C5_two_disjoint_copies_witness:
  "valid_csr 3 [1, 2, 2] [0, 2, 3, 3] \<and> valid_csr 3 [0, 0, 1] [0, 0, 1, 3] \<and>
   valid_csr (2 * 3) [1, 2, 2, 4, 5, 5] [0, 2, 3, 3, 5, 6, 6] \<and>
   valid_csr (2 * 3) [0, 0, 1, 3, 3, 4] [0, 0, 1, 3, 3, 4, 6] \<and>
   two_copies 3 [1, 2, 2] [0, 2, 3, 3] [1, 2, 2, 4, 5, 5] [0, 2, 3, 3, 5, 6, 6] \<and>
   two_copies 3 [0, 0, 1] [0, 0, 1, 3] [0, 0, 1, 3, 3, 4] [0, 0, 1, 3, 3, 4, 6] \<and>
   valid_csr 4 [1, 2, 2, 1] [0, 2, 3, 3, 4] \<and> valid_csr 4 [0, 3, 0, 1] [0, 0, 2, 4, 4] \<and>
   (0::nat) < 3 \<and> (0::nat) < 4 \<and>
   csr_row [1, 2, 2, 1] [0, 2, 3, 3, 4] (int 0) = csr_row [1, 2, 2] [0, 2, 3, 3] (int 0) \<and>
   csr_row [0, 3, 0, 1] [0, 0, 2, 4, 4] (int 0) = csr_row [0, 0, 1] [0, 0, 1, 3] (int 0) \<and>
   (\<exists>counts. count_number_local_triangles (\<lambda>_. 0) [1, 2, 2] [0, 2, 3, 3] = Inr counts \<and>
      count_number_local_triangles (\<lambda>_. 0) [1, 2, 2, 4, 5, 5] [0, 2, 3, 3, 5, 6, 6]
        = Inr (counts @ counts)) \<and>
   (\<exists>a b c d.
      count_number_triangles_directed (\<lambda>_. 0) (\<lambda>_. 0) [1, 2, 2] [0, 2, 3, 3] [0, 0, 1] [0, 0, 1, 3]
        = Inr (a, b, c, d) \<and>
      count_number_triangles_directed (\<lambda>_. 0) (\<lambda>_. 0) [1, 2, 2, 4, 5, 5] [0, 2, 3, 3, 5, 6, 6]
          [0, 0, 1, 3, 3, 4] [0, 0, 1, 3, 3, 4, 6]
        = Inr (a @ a, b @ b, c @ c, d @ d)) \<and>
   (\<exists>counts counts'.
      count_number_local_triangles (\<lambda>_. 0) [1, 2, 2] [0, 2, 3, 3] = Inr counts \<and>
      count_number_local_triangles (\<lambda>_. 0) [1, 2, 2, 1] [0, 2, 3, 3, 4] = Inr counts' \<and>
      counts' ! 0 = counts ! 0) \<and>
   (\<exists>a b c d a' b' c' d'.
      count_number_triangles_directed (\<lambda>_. 0) (\<lambda>_. 0) [1, 2, 2] [0, 2, 3, 3] [0, 0, 1] [0, 0, 1, 3]
        = Inr (a, b, c, d) \<and>
      count_number_triangles_directed (\<lambda>_. 0) (\<lambda>_. 0) [1, 2, 2, 1] [0, 2, 3, 3, 4]
          [0, 3, 0, 1] [0, 0, 2, 4, 4]
        = Inr (a', b', c', d') \<and>
      a' ! 0 = a ! 0 \<and> b' ! 0 = b ! 0 \<and> c' ! 0 = c ! 0 \<and> d' ! 0 = d ! 0)"
proof -
  have h1: "valid_csr 3 [1, 2, 2] [0, 2, 3, 3]" by (simp add: valid_csr_def)
  have h2: "valid_csr 3 [0, 0, 1] [0, 0, 1, 3]" by (simp add: valid_csr_def)
  have h3: "valid_csr (2 * 3) [1, 2, 2, 4, 5, 5] [0, 2, 3, 3, 5, 6, 6]"
    by (simp add: valid_csr_def)
  have h4: "valid_csr (2 * 3) [0, 0, 1, 3, 3, 4] [0, 0, 1, 3, 3, 4, 6]"
    by (simp add: valid_csr_def)
  have h5: "two_copies 3 [1, 2, 2] [0, 2, 3, 3] [1, 2, 2, 4, 5, 5] [0, 2, 3, 3, 5, 6, 6]"
    by code_simp
  have h6: "two_copies 3 [0, 0, 1] [0, 0, 1, 3] [0, 0, 1, 3, 3, 4] [0, 0, 1, 3, 3, 4, 6]"
    by code_simp
  have h7: "valid_csr 4 [1, 2, 2, 1] [0, 2, 3, 3, 4]" by (simp add: valid_csr_def)
  have h8: "valid_csr 4 [0, 3, 0, 1] [0, 0, 2, 4, 4]" by (simp add: valid_csr_def)
  have h9: "(0::nat) < 3" "(0::nat) < 4" by simp_all
  have r1: "csr_row [1, 2, 2, 1] [0, 2, 3, 3, 4] (int 0) = csr_row [1, 2, 2] [0, 2, 3, 3] (int 0)"
    by code_simp
  have r2: "csr_row [0, 3, 0, 1] [0, 0, 2, 4, 4] (int 0) = csr_row [0, 0, 1] [0, 0, 1, 3] (int 0)"
    by code_simp
  have n1: "\<forall>w \<in> set (csr_row [1, 2, 2] [0, 2, 3, 3] (int 0)).
              csr_row [1, 2, 2, 1] [0, 2, 3, 3, 4] w = csr_row [1, 2, 2] [0, 2, 3, 3] w"
    by code_simp
  have n2: "\<forall>w \<in> set (csr_row [1, 2, 2] [0, 2, 3, 3] (int 0))
                  \<union> set (csr_row [0, 0, 1] [0, 0, 1, 3] (int 0)).
              csr_row [1, 2, 2, 1] [0, 2, 3, 3, 4] w = csr_row [1, 2, 2] [0, 2, 3, 3] w"
    by code_simp
  note t = C5_two_disjoint_copies[where N = 3 and M = 4 and v = 0
      and indices = "[1, 2, 2]" and indptr = "[0, 2, 3, 3]"
      and ?indices2.0 = "[1, 2, 2, 4, 5, 5]" and ?indptr2.0 = "[0, 2, 3, 3, 5, 6, 6]"
      and out_indices = "[1, 2, 2]" and out_indptr = "[0, 2, 3, 3]"
      and in_indices = "[0, 0, 1]" and in_indptr = "[0, 0, 1, 3]"
      and ?out_indices2.0 = "[1, 2, 2, 4, 5, 5]" and ?out_indptr2.0 = "[0, 2, 3, 3, 5, 6, 6]"
      and ?in_indices2.0 = "[0, 0, 1, 3, 3, 4]" and ?in_indptr2.0 = "[0, 0, 1, 3, 3, 4, 6]"
      and indices' = "[1, 2, 2, 1]" and indptr' = "[0, 2, 3, 3, 4]"
      and out_indices' = "[1, 2, 2, 1]" and out_indptr' = "[0, 2, 3, 3, 4]"
      and in_indices' = "[0, 3, 0, 1]" and in_indptr' = "[0, 0, 2, 4, 4]"
      and beyond = "\<lambda>_. 0" and ?beyond2.0 = "\<lambda>_. 0"
      and beyond_out = "\<lambda>_. 0" and beyond_in = "\<lambda>_. 0"
      and ?beyond_out2.0 = "\<lambda>_. 0" and ?beyond_in2.0 = "\<lambda>_. 0"]
  from t h1 h2 h3 h4 h5 h6 h7 h8 h9 r1 r2 n1 n2 show ?thesis by blast
qed

lemma duplicate_csr_examples:
  "duplicate_csr [1, 2, 0, 2, 0, 1] [0, 2, 4, 6]
     = ([1, 2, 0, 2, 0, 1, 4, 5, 3, 5, 3, 4], [0, 2, 4, 6, 8, 10, 12])"
  "duplicate_csr [1, 2, 2] [0, 2, 3, 3] = ([1, 2, 2, 4, 5, 5], [0, 2, 3, 3, 5, 6, 6])"
  "duplicate_csr [0, 0, 1] [0, 0, 1, 3] = ([0, 0, 1, 3, 3, 4], [0, 0, 1, 3, 3, 4, 6])"
  by (simp_all add: duplicate_csr_def)

lemma csr_row_alt:
  assumes "0 \<le> w"
  shows "csr_row indices indptr w
           = take (nat (indptr ! Suc (nat w)) - nat (indptr ! nat w)) (drop (nat (indptr ! nat w)) indices)"
proof -
  have "nat (w + 1) = Suc (nat w)" using assms by simp
  then show ?thesis by (simp add: csr_row_def)
qed

lemma duplicate_csr_two_copies:
  assumes val: "valid_csr N indices indptr" and z: "indptr ! 0 = 0"
    and dup: "duplicate_csr indices indptr = (indices2, indptr2)"
  shows "two_copies N indices indptr indices2 indptr2"
  unfolding two_copies_def
proof (intro ballI conjI)
  fix w assume w: "w \<in> {0..<int N}"
  define k where "k = nat w"
  have k: "k < N" and wk: "w = int k" using w by (auto simp: k_def)
  have len: "length indptr = N + 1" and srt: "sorted indptr"
    and nn: "\<forall>p \<in> set indptr. 0 \<le> p" and lst: "last indptr = int (length indices)"
    using val by (simp_all add: valid_csr_def)
  let ?L = "length indices"
  let ?f = "\<lambda>x. x + int N"
  have i2: "indices2 = indices @ map ?f indices"
    and p2: "indptr2 = indptr @ map (\<lambda>p. p + int ?L) (tl indptr)"
    using dup len by (simp_all add: duplicate_csr_def)
  have ne: "indptr \<noteq> []" using len by auto
  have lastN: "indptr ! N = int ?L" using lst len ne by (simp add: last_conv_nth)
  have nnk: "0 \<le> indptr ! j" if "j \<le> N" for j
    using nn len that by (simp add: less_Suc_eq_le)
  have le_L: "indptr ! j \<le> int ?L" if "j \<le> N" for j
  proof -
    have "indptr ! j \<le> indptr ! N" using srt len that by (intro sorted_nth_mono) simp_all
    then show ?thesis by (simp add: lastN)
  qed
  have mono: "indptr ! k \<le> indptr ! Suc k"
    using srt len k by (intro sorted_nth_mono) simp_all
  define a where "a = nat (indptr ! k)"
  define b where "b = nat (indptr ! Suc k)"
  have ab: "a \<le> b" "b \<le> ?L" "a \<le> ?L"
    using mono le_L[of "Suc k"] le_L[of k] k by (simp_all add: a_def b_def)
  have row: "csr_row indices indptr w = take (b - a) (drop a indices)"
    using csr_row_alt[of w] w by (simp add: wk a_def b_def)
  have lo1: "indptr2 ! k = indptr ! k" and hi1: "indptr2 ! Suc k = indptr ! Suc k"
    using k len by (simp_all add: p2 nth_append)
  have "csr_row indices2 indptr2 w = take (b - a) (drop a (indices @ map ?f indices))"
    using csr_row_alt[of w] w by (simp add: wk a_def b_def lo1 hi1 i2)
  also have "\<dots> = take (b - a) (drop a indices)"
    using ab by simp
  finally show "csr_row indices2 indptr2 w = csr_row indices indptr w"
    by (simp add: row)
  have tl_nth: "tl indptr ! j = indptr ! Suc j" if "j < N" for j
    using that len by (simp add: nth_tl)
  have lo2: "indptr2 ! (k + N) = indptr ! k + int ?L"
  proof (cases k)
    case 0
    then show ?thesis using len by (simp add: p2 nth_append lastN z)
  next
    case (Suc j)
    then have "j < N" using k by simp
    then show ?thesis using Suc len k by (simp add: p2 nth_append tl_nth)
  qed
  have hi2: "indptr2 ! Suc (k + N) = indptr ! Suc k + int ?L"
    using k len by (simp add: p2 nth_append tl_nth)
  have na: "nat (indptr ! k + int ?L) = a + ?L" and nb: "nat (indptr ! Suc k + int ?L) = b + ?L"
    using nnk[of k] nnk[of "Suc k"] k by (simp_all add: a_def b_def nat_add_distrib)
  have wN: "nat (w + int N) = k + N" "0 \<le> w + int N" by (simp_all add: wk)
  have "csr_row indices2 indptr2 (w + int N)
          = take (b - a) (drop (a + ?L) (indices @ map ?f indices))"
    using csr_row_alt[OF wN(2), of indices2 indptr2]
    by (simp add: wN(1) lo2 hi2 na nb i2)
  also have "\<dots> = take (b - a) (drop a (map ?f indices))"
    by (simp add: add.commute)
  also have "\<dots> = map ?f (take (b - a) (drop a indices))"
    by (simp add: take_map drop_map)
  finally show "csr_row indices2 indptr2 (w + int N) = map ?f (csr_row indices indptr w)"
    by (simp add: row)
qed

lemma duplicate_csr_valid:
  assumes val: "valid_csr N indices indptr" and z: "indptr ! 0 = 0"
    and dup: "duplicate_csr indices indptr = (indices2, indptr2)"
  shows "valid_csr (2 * N) indices2 indptr2"
proof -
  have len: "length indptr = N + 1" and srt: "sorted indptr"
    and nn: "\<forall>p \<in> set indptr. 0 \<le> p" and lst: "last indptr = int (length indices)"
    and rng: "\<forall>x \<in> set indices. 0 \<le> x \<and> x < int N"
    using val by (simp_all add: valid_csr_def)
  let ?L = "length indices"
  have i2: "indices2 = indices @ map (\<lambda>x. x + int N) indices"
    and p2: "indptr2 = indptr @ map (\<lambda>p. p + int ?L) (tl indptr)"
    using dup len by (simp_all add: duplicate_csr_def)
  have ne: "indptr \<noteq> []" using len by auto
  have le_last: "p \<le> int ?L" if "p \<in> set indptr" for p
  proof -
    from that obtain j where j: "j < length indptr" "p = indptr ! j"
      by (auto simp: in_set_conv_nth)
    then have "indptr ! j \<le> indptr ! N" using srt len by (intro sorted_nth_mono) simp_all
    then show ?thesis using j lst len ne by (simp add: last_conv_nth)
  qed
  have tl_sub: "set (tl indptr) \<subseteq> set indptr" using ne by (auto dest: list.set_sel(2))
  have 1: "length indptr2 = 2 * N + 1" using len by (simp add: p2)
  have "sorted (tl indptr)" using srt by (rule sorted_tl)
  then have "sorted (map (\<lambda>p. p + int ?L) (tl indptr))"
    by (simp add: sorted_map sorted_wrt_iff_nth_less sorted_iff_nth_mono less_imp_le)
  moreover have "\<forall>x \<in> set indptr. \<forall>y \<in> set (map (\<lambda>p. p + int ?L) (tl indptr)). x \<le> y"
  proof (intro ballI)
    fix x y assume x: "x \<in> set indptr" and "y \<in> set (map (\<lambda>p. p + int ?L) (tl indptr))"
    then obtain q where "q \<in> set indptr" "y = q + int ?L" using tl_sub by auto
    then have "int ?L \<le> y" using nn by auto
    with le_last[OF x] show "x \<le> y" by simp
  qed
  ultimately have 2: "sorted indptr2" using srt by (simp add: p2 sorted_append)
  have 3: "\<forall>p \<in> set indptr2. 0 \<le> p" using nn tl_sub by (auto simp: p2)
  have 4: "last indptr2 = int (length indices2)"
  proof (cases "tl indptr = []")
    case True
    then have "N = 0" using len by (cases indptr) simp_all
    then have "last indptr = indptr ! 0" using len ne by (simp add: last_conv_nth)
    then have "?L = 0" using lst z by simp
    then show ?thesis using True lst by (simp add: p2 i2)
  next
    case False
    then have "last (tl indptr) = last indptr" by (simp add: last_tl)
    then show ?thesis using False lst by (simp add: p2 i2 last_map)
  qed
  have 5: "\<forall>x \<in> set indices2. 0 \<le> x \<and> x < int (2 * N)" using rng by (auto simp: i2)
  from 1 2 3 4 5 show ?thesis by (simp add: valid_csr_def)
qed

subsection \<open>The size of the result and the part of the in-CSR that is read\<close>

lemma directed_node_in_row:
  assumes "get_neigh beyond_in' (int v) in_indices' in_indptr'
             = get_neigh beyond_in (int v) in_indices in_indptr"
  shows "directed_node beyond_out beyond_in' out_indices out_indptr in_indices' in_indptr' st v
           = directed_node beyond_out beyond_in out_indices out_indptr in_indices in_indptr st v"
  by (simp add: directed_node_def assms)

lemma foldl_cong_set:
  "(\<And>s x. x \<in> set xs \<Longrightarrow> f s x = g s x) \<Longrightarrow> foldl f st xs = foldl g st xs"
  by (induction xs arbitrary: st) simp_all

lemma triangles_directed_in_rows:
  assumes "\<forall>v < nat (int (length out_indptr) - 1).
             get_neigh beyond_in' (int v) in_indices' in_indptr'
               = get_neigh beyond_in (int v) in_indices in_indptr"
  shows "count_number_triangles_directed beyond_out beyond_in'
             out_indices out_indptr in_indices' in_indptr'
           = count_number_triangles_directed beyond_out beyond_in
               out_indices out_indptr in_indices in_indptr"
proof -
  have "foldl (directed_node beyond_out beyond_in' out_indices out_indptr in_indices' in_indptr')
            st [0..<nat (int (length out_indptr) - 1)]
        = foldl (directed_node beyond_out beyond_in out_indices out_indptr in_indices in_indptr)
            st [0..<nat (int (length out_indptr) - 1)]" for st
    using assms by (intro foldl_cong_set directed_node_in_row) simp
  then show ?thesis
    by (simp add: count_number_triangles_directed_def Let_def)
qed

lemma getitem_take:
  "0 \<le> i \<Longrightarrow> i < int k \<Longrightarrow> k \<le> length xs
     \<Longrightarrow> getitem beyond' (take k xs) i = getitem beyond xs i"
  by (simp add: getitem_def)

lemma take_drop_take:
  assumes "b \<le> L"
  shows "take (b - a) (drop a (take L xs)) = take (b - a) (drop a xs)"
proof -
  have "drop a (take L xs) = take (L - a) (drop a xs)" by (simp add: drop_take)
  moreover have "min (b - a) (L - a) = b - a" using assms by simp
  ultimately show ?thesis by simp
qed

text \<open>
  A row below \<open>N\<close> of a CSR with more than \<open>N\<close> rows is the same row after the rows from
  \<open>N\<close> on have been cut off, boundaries and entries.
\<close>

lemma get_neigh_truncate:
  assumes len: "N < length indptr" and srt: "sorted indptr" and nn: "\<forall>p \<in> set indptr. 0 \<le> p"
    and v: "v < N"
  shows "get_neigh beyond' (int v) (take (nat (indptr ! N)) indices) (take (N + 1) indptr)
           = get_neigh beyond (int v) indices indptr"
proof -
  have a: "getitem beyond' (take (N + 1) indptr) (int v) = indptr ! v"
    using v len by (simp add: getitem_def)
  have b: "getitem beyond' (take (N + 1) indptr) (int v + 1) = indptr ! Suc v"
    using v len by (simp add: getitem_def nat_add_distrib)
  have a': "getitem beyond indptr (int v) = indptr ! v"
    using v len by (simp add: getitem_def)
  have b': "getitem beyond indptr (int v + 1) = indptr ! Suc v"
    using v len by (simp add: getitem_def nat_add_distrib)
  have n0: "0 \<le> indptr ! v" "0 \<le> indptr ! Suc v"
    using nn v len by simp_all
  have "indptr ! Suc v \<le> indptr ! N"
    using srt v len by (intro sorted_nth_mono) simp_all
  then have le: "nat (indptr ! Suc v) \<le> nat (indptr ! N)" by simp
  show ?thesis
    unfolding get_neigh_def a b a' b' getslice_nonneg[OF n0]
    by (rule take_drop_take[OF le])
qed

text \<open>
  C10. The number of nodes of the directed counter is \<open>N = len(out_indptr) - 1\<close> whatever
  the in-CSR is. When the in-CSR has more than \<open>N\<close> rows the call returns four arrays of
  length \<open>N\<close>, on every such input. The rows from \<open>N\<close> on are not read: any in-CSR with the
  same first \<open>N\<close> rows gives the same four arrays, and so does, for a non-decreasing
  \<open>in_indptr\<close> without negative entries, the in-CSR from which those rows have been cut
  off, entries and boundaries.
\<close>

theorem C10_sized_by_out_indptr:
  assumes "length out_indptr = N + 1" "N + 1 < length in_indptr"
  shows "\<exists>a b c d.
           count_number_triangles_directed beyond_out beyond_in
               out_indices out_indptr in_indices in_indptr
             = Inr (a, b, c, d) \<and>
           length a = N \<and> length b = N \<and> length c = N \<and> length d = N \<and>
           (\<forall>beyond_in' in_indices' in_indptr'.
              (\<forall>v < N. get_neigh beyond_in' (int v) in_indices' in_indptr'
                          = get_neigh beyond_in (int v) in_indices in_indptr) \<longrightarrow>
              count_number_triangles_directed beyond_out beyond_in'
                  out_indices out_indptr in_indices' in_indptr'
                = Inr (a, b, c, d)) \<and>
           (sorted in_indptr \<and> (\<forall>p \<in> set in_indptr. 0 \<le> p) \<longrightarrow>
              (\<forall>beyond_in'.
                 count_number_triangles_directed beyond_out beyond_in' out_indices out_indptr
                     (take (nat (in_indptr ! N)) in_indices) (take (N + 1) in_indptr)
                   = Inr (a, b, c, d)))"
proof -
  have n: "nat (int (length out_indptr) - 1) = N" using assms(1) by simp
  have rows: "count_number_triangles_directed beyond_out beyond_in' out_indices out_indptr
                in_indices' in_indptr'
              = count_number_triangles_directed beyond_out beyond_in out_indices out_indptr
                  in_indices in_indptr"
    if "\<forall>v < N. get_neigh beyond_in' (int v) in_indices' in_indptr'
                  = get_neigh beyond_in (int v) in_indices in_indptr"
    for beyond_in' in_indices' in_indptr'
    using that by (intro triangles_directed_in_rows) (simp add: n)
  have cut: "count_number_triangles_directed beyond_out beyond_in' out_indices out_indptr
                (take (nat (in_indptr ! N)) in_indices) (take (N + 1) in_indptr)
              = count_number_triangles_directed beyond_out beyond_in out_indices out_indptr
                  in_indices in_indptr"
    if "sorted in_indptr \<and> (\<forall>p \<in> set in_indptr. 0 \<le> p)" for beyond_in'
  proof (rule rows, intro allI impI)
    fix v assume "v < N"
    with that assms(2) show "get_neigh beyond_in' (int v) (take (nat (in_indptr ! N)) in_indices)
        (take (N + 1) in_indptr) = get_neigh beyond_in (int v) in_indices in_indptr"
      by (intro get_neigh_truncate) simp_all
  qed
  obtain a b c d where r: "count_number_triangles_directed beyond_out beyond_in
        out_indices out_indptr in_indices in_indptr = Inr (a, b, c, d)"
    and l: "length a = N" "length b = N" "length c = N" "length d = N"
    using triangles_directed_rows[OF assms(1), of beyond_out beyond_in out_indices
        in_indices in_indptr] by simp
  show ?thesis
  proof (intro exI conjI)
    show "count_number_triangles_directed beyond_out beyond_in
        out_indices out_indptr in_indices in_indptr = Inr (a, b, c, d)" by (rule r)
    show "length a = N" "length b = N" "length c = N" "length d = N" by (rule l)+
    show "\<forall>beyond_in' in_indices' in_indptr'.
              (\<forall>v < N. get_neigh beyond_in' (int v) in_indices' in_indptr'
                          = get_neigh beyond_in (int v) in_indices in_indptr) \<longrightarrow>
              count_number_triangles_directed beyond_out beyond_in'
                  out_indices out_indptr in_indices' in_indptr'
                = Inr (a, b, c, d)"
      using rows unfolding r by blast
    show "sorted in_indptr \<and> (\<forall>p \<in> set in_indptr. 0 \<le> p) \<longrightarrow>
              (\<forall>beyond_in'.
                 count_number_triangles_directed beyond_out beyond_in' out_indices out_indptr
                     (take (nat (in_indptr ! N)) in_indices) (take (N + 1) in_indptr)
                   = Inr (a, b, c, d))"
      using cut unfolding r by blast
  qed
qed

text \<open>
  The witness: the cycle 0 \<rightarrow> 1 \<rightarrow> 2 \<rightarrow> 0 as out-CSR over three nodes, and an in-CSR with
  five rows whose row 2 names the node 4. The call returns three entries in each array;
  so does the call on the in-CSR cut to its first three rows, and the call on another
  in-CSR with the same first three rows.
\<close>

theorem C10_sized_by_out_indptr_witness:
  "length [0, 1, 2, 3 :: int] = 3 + 1 \<and> 3 + 1 < length [0, 1, 2, 3, 4, 5 :: int] \<and>
   sorted [0, 1, 2, 3, 4, 5 :: int] \<and>
   (\<exists>a b c d.
      count_number_triangles_directed (\<lambda>_. 0) (\<lambda>_. 0)
          [1, 2, 0] [0, 1, 2, 3] [2, 0, 4, 4, 3] [0, 1, 2, 3, 4, 5]
        = Inr (a, b, c, d) \<and>
      length a = 3 \<and> length b = 3 \<and> length c = 3 \<and> length d = 3 \<and>
      count_number_triangles_directed (\<lambda>_. 0) (\<lambda>_. 9)
          [1, 2, 0] [0, 1, 2, 3] [2, 0, 4, 0, 1, 2] [0, 1, 2, 3, 6, 6]
        = Inr (a, b, c, d) \<and>
      count_number_triangles_directed (\<lambda>_. 0) (\<lambda>_. 0) [1, 2, 0] [0, 1, 2, 3]
          (take (nat ([0, 1, 2, 3, 4, 5] ! 3)) [2, 0, 4, 4, 3]) (take (3 + 1) [0, 1, 2, 3, 4, 5])
        = Inr (a, b, c, d))"
proof -
  have h1: "length [0, 1, 2, 3 :: int] = 3 + 1" by simp
  have h2: "3 + 1 < length [0, 1, 2, 3, 4, 5 :: int]" by simp
  have h3: "sorted [0, 1, 2, 3, 4, 5 :: int]" by simp
  have h4: "\<forall>p \<in> set [0, 1, 2, 3, 4, 5 :: int]. 0 \<le> p" by simp
  have "\<forall>v \<in> {..<3::nat}. get_neigh (\<lambda>_. 9) (int v) [2, 0, 4, 0, 1, 2] [0, 1, 2, 3, 6, 6]
          = get_neigh (\<lambda>_. 0) (int v) [2, 0, 4, 4, 3] [0, 1, 2, 3, 4, 5]"
    by code_simp
  then have h5: "\<forall>v < 3. get_neigh (\<lambda>_. 9) (int v) [2, 0, 4, 0, 1, 2] [0, 1, 2, 3, 6, 6]
          = get_neigh (\<lambda>_. 0) (int v) [2, 0, 4, 4, 3] [0, 1, 2, 3, 4, 5]"
    by simp
  from C10_sized_by_out_indptr[OF h1 h2, of "\<lambda>_. 0" "\<lambda>_. 0" "[1, 2, 0]" "[2, 0, 4, 4, 3]"]
  obtain a b c d where
    r: "count_number_triangles_directed (\<lambda>_. 0) (\<lambda>_. 0)
          [1, 2, 0] [0, 1, 2, 3] [2, 0, 4, 4, 3] [0, 1, 2, 3, 4, 5] = Inr (a, b, c, d)"
    and l: "length a = 3" "length b = 3" "length c = 3" "length d = 3"
    and rows: "\<And>beyond_in' in_indices' in_indptr'.
        \<forall>v < 3. get_neigh beyond_in' (int v) in_indices' in_indptr'
                  = get_neigh (\<lambda>_. 0) (int v) [2, 0, 4, 4, 3] [0, 1, 2, 3, 4, 5] \<Longrightarrow>
        count_number_triangles_directed (\<lambda>_. 0) beyond_in'
          [1, 2, 0] [0, 1, 2, 3] in_indices' in_indptr' = Inr (a, b, c, d)"
    and cut: "sorted [0, 1, 2, 3, 4, 5 :: int] \<and> (\<forall>p \<in> set [0, 1, 2, 3, 4, 5 :: int]. 0 \<le> p) \<longrightarrow>
        (\<forall>beyond_in'. count_number_triangles_directed (\<lambda>_. 0) beyond_in' [1, 2, 0] [0, 1, 2, 3]
          (take (nat ([0, 1, 2, 3, 4, 5] ! 3)) [2, 0, 4, 4, 3]) (take (3 + 1) [0, 1, 2, 3, 4, 5])
        = Inr (a, b, c, d))"
    by blast
  from cut h3 h4 have c: "count_number_triangles_directed (\<lambda>_. 0) (\<lambda>_. 0) [1, 2, 0] [0, 1, 2, 3]
          (take (nat ([0, 1, 2, 3, 4, 5] ! 3)) [2, 0, 4, 4, 3]) (take (3 + 1) [0, 1, 2, 3, 4, 5])
        = Inr (a, b, c, d)" by blast
  from r l rows[OF h5] c h1 h2 h3 show ?thesis by blast
qed

subsection \<open>The kernels over a store: frame, fresh results, and agreement with the value model\<close>

lemma foldl_sim:
  assumes "\<And>s x. x \<in> set xs \<Longrightarrow> body_heap (f s) x = f (body s x)"
  shows "foldl body_heap (f s) xs = f (foldl body s xs)"
  using assms by (induction xs arbitrary: s) simp_all

lemma take_drop_map_nth:
  assumes "hi \<le> length xs"
  shows "take (hi - lo) (drop lo xs) = map (\<lambda>i. xs ! i) [lo..<hi]"
  using assms by (intro nth_equalityI) simp_all

lemma slice_bound_le: "slice_bound n i \<le> n"
  by (auto simp: slice_bound_def)

lemma get_neigh_view_elems:
  "get_neigh beyond node (h ! p_indices) (h ! p_indptr)
     = view_elems h (get_neigh_view beyond h node p_indices p_indptr)"
  by (simp add: get_neigh_def get_neigh_view_def view_elems_def getslice_def
      take_drop_map_nth slice_bound_le)

lemma local_node_heap_sim:
  assumes "p_indices < length h0" "p_indptr < length h0"
  shows "local_node_heap beyond p_indices p_indptr (length h0) (h0 @ [arr]) v
           = h0 @ [local_node beyond (h0 ! p_indices) (h0 ! p_indptr) arr v]"
  using assms
  by (simp add: local_node_heap_def local_node_def heap_assign_def nth_append)

lemma local_heap_is_value:
  assumes "p_indices < length h" "p_indptr < length h"
  shows "count_number_local_triangles_heap beyond h p_indices p_indptr
           = map_sum id (\<lambda>counts. (length h, h @ [counts]))
               (count_number_local_triangles beyond (h ! p_indices) (h ! p_indptr))"
proof -
  let ?n = "nat (int (length (h ! p_indptr)) - 1)"
  have "foldl (local_node_heap beyond p_indices p_indptr (length h)) (h @ [zeros ?n]) [0..<?n]
          = h @ [foldl (local_node beyond (h ! p_indices) (h ! p_indptr)) (zeros ?n) [0..<?n]]"
    by (rule foldl_sim[where f = "\<lambda>arr. h @ [arr]"]) (rule local_node_heap_sim[OF assms])
  then show ?thesis
    by (simp add: count_number_local_triangles_heap_def count_number_local_triangles_def
        np_zeros_def Let_def)
qed

lemma heap_of_nth: "p < length h0 \<Longrightarrow> heap_of h0 st ! p = h0 ! p"
  by (simp add: heap_of_def nth_append)

lemma heap_incr_heap_of:
  "heap_incr (heap_of h0 st) (length h0) v
     = heap_of h0 (st\<lparr>num_out_triangles := incr (num_out_triangles st) v\<rparr>)"
  "heap_incr (heap_of h0 st) (Suc (length h0)) v
     = heap_of h0 (st\<lparr>num_in_triangles := incr (num_in_triangles st) v\<rparr>)"
  "heap_incr (heap_of h0 st) (Suc (Suc (length h0))) v
     = heap_of h0 (st\<lparr>num_cycle_triangles := incr (num_cycle_triangles st) v\<rparr>)"
  "heap_incr (heap_of h0 st) (Suc (Suc (Suc (length h0)))) v
     = heap_of h0 (st\<lparr>num_middle_triangles := incr (num_middle_triangles st) v\<rparr>)"
  by (simp_all add: heap_incr_def heap_of_def list_update_append nth_append)

lemma out_visit_heap_sim:
  "visit_heap v oe ie (r_out (fresh_addrs h0)) (r_cycle (fresh_addrs h0)) (heap_of h0 st) x
     = heap_of h0 (out_visit v oe ie st x)"
  by (simp add: visit_heap_def out_visit_def fresh_addrs_def heap_incr_heap_of Let_def)

lemma in_visit_heap_sim:
  "visit_heap v oe ie (r_middle (fresh_addrs h0)) (r_in (fresh_addrs h0)) (heap_of h0 st) x
     = heap_of h0 (in_visit v oe ie st x)"
  by (simp add: visit_heap_def in_visit_def fresh_addrs_def heap_incr_heap_of Let_def)

lemma foldl_view_sim:
  assumes "\<And>s x. visit_h (heap_of h0 s) x = heap_of h0 (visit s x)" "p < length h0"
  shows "foldl (\<lambda>h' i. visit_h h' (h' ! p ! i)) (heap_of h0 st) positions
           = heap_of h0 (foldl visit st (map (\<lambda>i. h0 ! p ! i) positions))"
  by (induction positions arbitrary: st) (simp_all add: assms heap_of_nth)

lemma get_neigh_view_heap_of:
  assumes "p_indices < length h0" "p_indptr < length h0"
  shows "get_neigh_view beyond (heap_of h0 st) node p_indices p_indptr
           = get_neigh_view beyond h0 node p_indices p_indptr"
  by (simp add: get_neigh_view_def heap_of_nth assms)

lemma view_elems_heap_of:
  assumes "p_indices < length h0"
  shows "view_elems (heap_of h0 st) (get_neigh_view beyond h0 node p_indices p_indptr)
           = view_elems h0 (get_neigh_view beyond h0 node p_indices p_indptr)"
  using assms by (simp add: view_elems_def get_neigh_view_def heap_of_nth)

lemma motif_neigh_body_heap_sim:
  assumes vis: "\<And>s x. visit_h (heap_of h0 s) x = heap_of h0 (visit s x)"
    and a: "p_indices < length h0" "p_indptr < length h0"
  shows "motif_neigh_body_heap visit_h beyond p_indices p_indptr (heap_of h0 st) w
           = heap_of h0 (motif_neigh_body visit beyond (h0 ! p_indices) (h0 ! p_indptr) st w)"
proof -
  note fv = foldl_view_sim[where visit_h = visit_h and visit = visit and ?h0.0 = h0, OF vis a(1)]
  show ?thesis
    unfolding motif_neigh_body_heap_def get_neigh_view_heap_of[OF a]
    by (simp add: motif_neigh_body_def get_neigh_view_elems view_elems_def get_neigh_view_def fv)
qed

lemma directed_node_heap_sim:
  assumes o: "p_out_indices < length h0" "p_out_indptr < length h0"
    and i: "p_in_indices < length h0" "p_in_indptr < length h0"
  shows "directed_node_heap beyond_out beyond_in p_out_indices p_out_indptr
           p_in_indices p_in_indptr (fresh_addrs h0) (heap_of h0 st) v
         = heap_of h0
             (directed_node beyond_out beyond_in (h0 ! p_out_indices) (h0 ! p_out_indptr)
                (h0 ! p_in_indices) (h0 ! p_in_indptr) st v)"
proof -
  let ?oe = "py_set (get_neigh beyond_out (int v) (h0 ! p_out_indices) (h0 ! p_out_indptr))"
  let ?ie = "py_set (get_neigh beyond_in (int v) (h0 ! p_in_indices) (h0 ! p_in_indptr))"
  have l1: "foldl (motif_neigh_body_heap
                (visit_heap v ?oe ?ie (r_out (fresh_addrs h0)) (r_cycle (fresh_addrs h0)))
                beyond_out p_out_indices p_out_indptr) (heap_of h0 s) ws
              = heap_of h0 (foldl (motif_neigh_body (out_visit v ?oe ?ie) beyond_out
                  (h0 ! p_out_indices) (h0 ! p_out_indptr)) s ws)" for s ws
    by (rule foldl_sim[where f = "heap_of h0"])
      (rule motif_neigh_body_heap_sim[where visit = "out_visit v ?oe ?ie",
          OF out_visit_heap_sim o])
  have l2: "foldl (motif_neigh_body_heap
                (visit_heap v ?oe ?ie (r_middle (fresh_addrs h0)) (r_in (fresh_addrs h0)))
                beyond_out p_out_indices p_out_indptr) (heap_of h0 s) ws
              = heap_of h0 (foldl (motif_neigh_body (in_visit v ?oe ?ie) beyond_out
                  (h0 ! p_out_indices) (h0 ! p_out_indptr)) s ws)" for s ws
    by (rule foldl_sim[where f = "heap_of h0"])
      (rule motif_neigh_body_heap_sim[where visit = "in_visit v ?oe ?ie",
          OF in_visit_heap_sim o])
  show ?thesis
    by (simp add: directed_node_heap_def directed_node_def get_neigh_view_heap_of[OF o]
        get_neigh_view_heap_of[OF i] view_elems_heap_of[OF o(1)] view_elems_heap_of[OF i(1)]
        get_neigh_view_elems[symmetric] l1 l2 Let_def)
qed

lemma directed_heap_is_value:
  assumes o: "p_out_indices < length h" "p_out_indptr < length h"
    and i: "p_in_indices < length h" "p_in_indptr < length h"
  shows "count_number_triangles_directed_heap beyond_out beyond_in h
           p_out_indices p_out_indptr p_in_indices p_in_indptr
         = map_sum id (\<lambda>(a, b, c, d). (fresh_addrs h, h @ [a, b, c, d]))
             (count_number_triangles_directed beyond_out beyond_in
                (h ! p_out_indices) (h ! p_out_indptr) (h ! p_in_indices) (h ! p_in_indptr))"
proof -
  let ?n = "nat (int (length (h ! p_out_indptr)) - 1)"
  let ?init = "\<lparr>num_out_triangles = zeros ?n, num_in_triangles = zeros ?n,
               num_cycle_triangles = zeros ?n, num_middle_triangles = zeros ?n\<rparr>"
  let ?final = "foldl (directed_node beyond_out beyond_in (h ! p_out_indices) (h ! p_out_indptr)
                 (h ! p_in_indices) (h ! p_in_indptr)) ?init [0..<?n]"
  have top: "count_number_triangles_directed_heap beyond_out beyond_in h
               p_out_indices p_out_indptr p_in_indices p_in_indptr
      = (if int (length (h ! p_out_indptr)) - 1 < 0 then Inl ValueError
         else Inr (fresh_addrs h,
                   foldl (directed_node_heap beyond_out beyond_in p_out_indices p_out_indptr
                            p_in_indices p_in_indptr (fresh_addrs h)) (heap_of h ?init) [0..<?n]))"
    by (simp add: count_number_triangles_directed_heap_def np_zeros_def Let_def
        fresh_addrs_def heap_of_def)
  have sim: "foldl (directed_node_heap beyond_out beyond_in p_out_indices p_out_indptr
            p_in_indices p_in_indptr (fresh_addrs h)) (heap_of h ?init) [0..<?n]
        = heap_of h ?final"
    by (rule foldl_sim[where f = "heap_of h"]) (rule directed_node_heap_sim[OF assms])
  have "count_number_triangles_directed_heap beyond_out beyond_in h
               p_out_indices p_out_indptr p_in_indices p_in_indptr
      = (if int (length (h ! p_out_indptr)) - 1 < 0 then Inl ValueError
         else Inr (fresh_addrs h, heap_of h ?final))"
    unfolding sim[symmetric] by (rule top)
  then show ?thesis
    by (simp add: count_number_triangles_directed_def Let_def heap_of_def)
qed

text \<open>
  C8. For any store \<open>h\<close> and any addresses of input arrays in it, a call leaves a store
  that is \<open>h\<close> followed by the result arrays: no array of \<open>h\<close>, so no input array, is
  changed, and the results are at addresses that \<open>h\<close> did not have, each its own. The
  arrays returned are those the value-level kernel computes from the contents of the input
  arrays alone; nothing else in the store, such as the results of an earlier call, has any
  influence, and an error is the same error. In the source the inputs are declared
  \<open>readonly=True\<close> in the signatures of the compiled kernels.
\<close>

theorem C8_inputs_unchanged_results_fresh:
  "(p_indices < length h \<and> p_indptr < length h \<longrightarrow>
      count_number_local_triangles_heap beyond h p_indices p_indptr
        = map_sum id (\<lambda>counts. (length h, h @ [counts]))
            (count_number_local_triangles beyond (h ! p_indices) (h ! p_indptr)))
   \<and> (p_out_indices < length h \<and> p_out_indptr < length h \<and>
      p_in_indices < length h \<and> p_in_indptr < length h \<longrightarrow>
      count_number_triangles_directed_heap beyond_out beyond_in h
          p_out_indices p_out_indptr p_in_indices p_in_indptr
        = map_sum id (\<lambda>(a, b, c, d). (fresh_addrs h, h @ [a, b, c, d]))
            (count_number_triangles_directed beyond_out beyond_in
               (h ! p_out_indices) (h ! p_out_indptr) (h ! p_in_indices) (h ! p_in_indptr)))"
  using local_heap_is_value directed_heap_is_value by blast

text \<open>
  The witness: a store with the two CSR structures of the graph 0 \<rightarrow> 1, 0 \<rightarrow> 2, 1 \<rightarrow> 2 at
  the addresses 0 to 3 and one more array at address 4. The undirected kernel is called on
  the out-CSR, the directed kernel on both.
\<close>

theorem C8_inputs_unchanged_results_fresh_witness:
  "(0::nat) < length [[1, 2, 2], [0, 2, 3, 3], [0, 0, 1], [0, 0, 1, 3], [9 :: int]] \<and>
   (1::nat) < length [[1, 2, 2], [0, 2, 3, 3], [0, 0, 1], [0, 0, 1, 3], [9 :: int]] \<and>
   (2::nat) < length [[1, 2, 2], [0, 2, 3, 3], [0, 0, 1], [0, 0, 1, 3], [9 :: int]] \<and>
   (3::nat) < length [[1, 2, 2], [0, 2, 3, 3], [0, 0, 1], [0, 0, 1, 3], [9 :: int]] \<and>
   count_number_local_triangles_heap (\<lambda>_. 0)
       [[1, 2, 2], [0, 2, 3, 3], [0, 0, 1], [0, 0, 1, 3], [9]] 0 1
     = Inr (5, [[1, 2, 2], [0, 2, 3, 3], [0, 0, 1], [0, 0, 1, 3], [9], [1, 0, 0]]) \<and>
   count_number_triangles_directed_heap (\<lambda>_. 0) (\<lambda>_. 0)
       [[1, 2, 2], [0, 2, 3, 3], [0, 0, 1], [0, 0, 1, 3], [9]] 0 1 2 3
     = Inr (\<lparr>r_out = 5, r_in = 6, r_cycle = 7, r_middle = 8\<rparr>,
            [[1, 2, 2], [0, 2, 3, 3], [0, 0, 1], [0, 0, 1, 3], [9],
             [1, 0, 0], [0, 0, 1], [0, 0, 0], [0, 1, 0]])"
proof -
  let ?h = "[[1, 2, 2], [0, 2, 3, 3], [0, 0, 1], [0, 0, 1, 3], [9 :: int]]"
  have a: "(0::nat) < length ?h" "(1::nat) < length ?h" "(2::nat) < length ?h"
    "(3::nat) < length ?h" by simp_all
  have v1: "count_number_local_triangles (\<lambda>_. 0) (?h ! 0) (?h ! 1) = Inr [1, 0, 0]"
    by code_simp
  have v2: "count_number_triangles_directed (\<lambda>_. 0) (\<lambda>_. 0) (?h ! 0) (?h ! 1) (?h ! 2) (?h ! 3)
              = Inr ([1, 0, 0], [0, 0, 1], [0, 0, 0], [0, 1, 0])" by code_simp
  have f: "fresh_addrs ?h = \<lparr>r_out = 5, r_in = 6, r_cycle = 7, r_middle = 8\<rparr>"
    by (simp add: fresh_addrs_def)
  from C8_inputs_unchanged_results_fresh[of 0 ?h 1 "\<lambda>_. 0" 0 1 2 3 "\<lambda>_. 0" "\<lambda>_. 0"] a
  have "count_number_local_triangles_heap (\<lambda>_. 0) ?h 0 1
          = map_sum id (\<lambda>counts. (length ?h, ?h @ [counts]))
              (count_number_local_triangles (\<lambda>_. 0) (?h ! 0) (?h ! 1))"
    and "count_number_triangles_directed_heap (\<lambda>_. 0) (\<lambda>_. 0) ?h 0 1 2 3
          = map_sum id (\<lambda>(a, b, c, d). (fresh_addrs ?h, ?h @ [a, b, c, d]))
              (count_number_triangles_directed (\<lambda>_. 0) (\<lambda>_. 0) (?h ! 0) (?h ! 1) (?h ! 2) (?h ! 3))"
    by blast+
  then show ?thesis unfolding v1 v2 f using a by simp
qed

subsection \<open>Interleaved workers that own disjoint slots\<close>

lemma nth_update_agree:
  "length xs = length ys \<Longrightarrow> xs ! t = ys ! t \<Longrightarrow> xs[s := x] ! t = ys[s := x] ! t"
  by (cases "s < length xs") (simp_all add: nth_list_update list_update_beyond)

lemma exec_micro_length: "length (fst (exec_micro op m r) k) = length (m k)"
  by (cases op) simp_all

lemma exec_micro_frame: "s \<noteq> slot_of op \<Longrightarrow> fst (exec_micro op m r) k ! s = m k ! s"
  by (cases op) simp_all

lemma exec_micro_agree_reg:
  assumes "\<forall>k. m1 k ! slot_of op = m2 k ! slot_of op"
  shows "snd (exec_micro op m1 r) = snd (exec_micro op m2 r)"
  using assms by (cases op) simp_all

lemma exec_micro_agree_mem:
  assumes l: "\<forall>k. length (m1 k) = length (m2 k)"
    and a: "\<forall>k. m1 k ! slot_of op = m2 k ! slot_of op"
  shows "fst (exec_micro op m1 r) k ! slot_of op = fst (exec_micro op m2 r) k ! slot_of op"
proof (cases op)
  case (Load k' s)
  then show ?thesis using a by simp
next
  case (Store_incr k' s)
  have "(m1 k')[s := r + 1] ! s = (m2 k')[s := r + 1] ! s"
    using l a Store_incr by (intro nth_update_agree) simp_all
  then show ?thesis using a Store_incr by simp
next
  case (Store_value k' s x)
  have "(m1 k')[s := x] ! s = (m2 k')[s := x] ! s"
    using l a Store_value by (intro nth_update_agree) simp_all
  then show ?thesis using a Store_value by simp
qed

lemma exec_prog_Nil: "exec_prog [] c = c"
  by (simp add: exec_prog_def)

lemma exec_prog_append: "exec_prog (p @ q) c = exec_prog q (exec_prog p c)"
  by (simp add: exec_prog_def)

lemma exec_prog_snoc:
  "exec_prog (p @ [op]) c = exec_micro op (fst (exec_prog p c)) (snd (exec_prog p c))"
  by (simp add: exec_prog_def)

lemma exec_prog_length: "length (fst (exec_prog p c) k) = length (fst c k)"
  by (induction p arbitrary: c rule: rev_induct)
    (simp_all add: exec_prog_Nil exec_prog_snoc exec_micro_length)

lemma par_inv_init: "par_inv progs owned m0 (m0, map (Pair 0) progs)"
  unfolding par_inv_def
proof (intro conjI allI impI)
  fix i assume "i < length progs"
  then show "\<exists>done. progs ! i = done @ snd (snd (m0, map (Pair 0) progs) ! i) \<and>
      fst (snd (m0, map (Pair 0) progs) ! i) = snd (exec_prog done (m0, 0)) \<and>
      (\<forall>k. \<forall>s \<in> owned i. fst (m0, map (Pair 0) progs) k ! s = fst (exec_prog done (m0, 0)) k ! s)"
    by (intro exI[of _ "[]"]) (simp add: exec_prog_Nil)
qed simp_all

lemma par_inv_worker:
  assumes "par_inv progs owned m0 (m, ws)" "i < length progs"
  obtains dn where "progs ! i = dn @ snd (ws ! i)" "fst (ws ! i) = snd (exec_prog dn (m0, 0))"
    "\<And>k s. s \<in> owned i \<Longrightarrow> m k ! s = fst (exec_prog dn (m0, 0)) k ! s"
proof -
  from assms have "\<exists>dn. progs ! i = dn @ snd (ws ! i) \<and>
      fst (ws ! i) = snd (exec_prog dn (m0, 0)) \<and>
      (\<forall>k. \<forall>s \<in> owned i. m k ! s = fst (exec_prog dn (m0, 0)) k ! s)"
    unfolding par_inv_def by simp
  then show thesis using that by blast
qed

lemma par_inv_step:
  assumes inv: "par_inv progs owned m0 cfg"
    and own: "\<forall>i < length progs. \<forall>op \<in> set (progs ! i). slot_of op \<in> owned i"
    and disj: "\<forall>i < length progs. \<forall>j < length progs. i \<noteq> j \<longrightarrow> owned i \<inter> owned j = {}"
  shows "par_inv progs owned m0 (worker_step cfg j)"
proof -
  obtain m ws where cfg: "cfg = (m, ws)" by (cases cfg)
  have len: "length ws = length progs" and lens: "\<And>k. length (m k) = length (m0 k)"
    using inv by (simp_all add: par_inv_def cfg)
  show ?thesis
  proof (cases "j < length ws")
    case False
    then show ?thesis using inv by (simp add: worker_step_def cfg)
  next
    case j: True
    obtain r todo where wj: "ws ! j = (r, todo)" by (cases "ws ! j")
    show ?thesis
    proof (cases todo)
      case Nil
      then show ?thesis using inv j wj by (simp add: worker_step_def cfg)
    next
      case (Cons op rest)
      obtain m' r' where ex: "exec_micro op m r = (m', r')" by (cases "exec_micro op m r")
      have step: "worker_step cfg j = (m', ws[j := (r', rest)])"
        using j wj Cons ex by (simp add: worker_step_def cfg)
      have jp: "j < length progs" using j len by simp
      obtain dn where
        dn: "progs ! j = dn @ op # rest" "r = snd (exec_prog dn (m0, 0))"
          "\<And>k s. s \<in> owned j \<Longrightarrow> m k ! s = fst (exec_prog dn (m0, 0)) k ! s"
        using par_inv_worker[OF inv[unfolded cfg] jp] wj Cons by (metis fst_conv snd_conv)
      let ?mj = "fst (exec_prog dn (m0, 0))"
      have "op \<in> set (progs ! j)" using dn(1) by simp
      then have sl: "slot_of op \<in> owned j" using own jp by simp
      have lj: "\<forall>k. length (m k) = length (?mj k)"
        by (simp add: lens exec_prog_length)
      have aj: "\<forall>k. m k ! slot_of op = ?mj k ! slot_of op"
        using dn(3)[OF sl] by simp
      have m': "m' = fst (exec_micro op m r)" and r': "r' = snd (exec_micro op m r)"
        using ex by simp_all
      have lenm': "\<And>k. length (m' k) = length (m0 k)"
        by (simp add: m' exec_micro_length lens)
      have each: "\<exists>done. progs ! i = done @ snd (ws[j := (r', rest)] ! i) \<and>
            fst (ws[j := (r', rest)] ! i) = snd (exec_prog done (m0, 0)) \<and>
            (\<forall>k. \<forall>s \<in> owned i. m' k ! s = fst (exec_prog done (m0, 0)) k ! s)"
        if i: "i < length progs" for i
      proof (cases "i = j")
        case True
        have a: "progs ! i = (dn @ [op]) @ snd (ws[j := (r', rest)] ! i)"
          using True j dn(1) by simp
        have b: "fst (ws[j := (r', rest)] ! i) = snd (exec_prog (dn @ [op]) (m0, 0))"
          using True j exec_micro_agree_reg[OF aj, of r]
          by (simp add: exec_prog_snoc r' dn(2))
        have c: "m' k ! s = fst (exec_prog (dn @ [op]) (m0, 0)) k ! s"
          if "s \<in> owned i" for k s
        proof (cases "s = slot_of op")
          case True
          then show ?thesis
            using exec_micro_agree_mem[OF lj aj, of r k]
            by (simp add: exec_prog_snoc m' dn(2))
        next
          case False
          then show ?thesis
            using that \<open>i = j\<close> dn(3)[of s k]
            by (simp add: exec_prog_snoc m' exec_micro_frame)
        qed
        from a b c show ?thesis by blast
      next
        case False
        obtain di where
          di: "progs ! i = di @ snd (ws ! i)" "fst (ws ! i) = snd (exec_prog di (m0, 0))"
            "\<And>k s. s \<in> owned i \<Longrightarrow> m k ! s = fst (exec_prog di (m0, 0)) k ! s"
          using par_inv_worker[OF inv[unfolded cfg] i] by blast
        have "owned i \<inter> owned j = {}" using disj i jp False by blast
        then have ne: "s \<noteq> slot_of op" if "s \<in> owned i" for s
          using sl that by blast
        have "m' k ! s = fst (exec_prog di (m0, 0)) k ! s"
          if "s \<in> owned i" for k s
          using ne[OF that] di(3)[OF that] by (simp add: m' exec_micro_frame)
        then show ?thesis using False di(1,2) by (intro exI[of _ di]) simp
      qed
      show ?thesis
        unfolding par_inv_def step fst_conv snd_conv
        using len lenm' each by simp
    qed
  qed
qed

lemma par_inv_run:
  assumes "par_inv progs owned m0 cfg"
    and "\<forall>i < length progs. \<forall>op \<in> set (progs ! i). slot_of op \<in> owned i"
    and "\<forall>i < length progs. \<forall>j < length progs. i \<noteq> j \<longrightarrow> owned i \<inter> owned j = {}"
  shows "par_inv progs owned m0 (run_schedule sched cfg)"
  using assms(1) unfolding run_schedule_def
  by (induction sched arbitrary: cfg) (simp_all add: par_inv_step[OF _ assms(2,3)])

text \<open>
  When every worker has finished, the shared arrays hold at the slots of each worker what
  the worker leaves there when it runs alone.
\<close>

lemma interleaved_run:
  assumes own: "\<forall>i < length progs. \<forall>op \<in> set (progs ! i). slot_of op \<in> owned i"
    and disj: "\<forall>i < length progs. \<forall>j < length progs. i \<noteq> j \<longrightarrow> owned i \<inter> owned j = {}"
    and fin: "finished (snd (run_schedule sched (m0, map (Pair 0) progs)))"
    and i: "i < length progs" and s: "s \<in> owned i"
  shows "fst (run_schedule sched (m0, map (Pair 0) progs)) k ! s
           = fst (exec_prog (progs ! i) (m0, 0)) k ! s"
proof -
  obtain m ws where cfg: "run_schedule sched (m0, map (Pair 0) progs) = (m, ws)"
    by (cases "run_schedule sched (m0, map (Pair 0) progs)")
  have inv: "par_inv progs owned m0 (m, ws)"
    using par_inv_run[OF par_inv_init own disj, of m0 sched] cfg by simp
  obtain dn where
    dn: "progs ! i = dn @ snd (ws ! i)"
      "\<And>k s. s \<in> owned i \<Longrightarrow> m k ! s = fst (exec_prog dn (m0, 0)) k ! s"
    using par_inv_worker[OF inv i] by blast
  have "i < length ws" using inv i by (simp add: par_inv_def)
  then have "snd (ws ! i) = []" using fin cfg by (simp add: finished_def)
  with dn(1) have "dn = progs ! i" by simp
  with dn(2)[OF s] show ?thesis by (simp add: cfg)
qed

lemma interleaved_length:
  assumes own: "\<forall>i < length progs. \<forall>op \<in> set (progs ! i). slot_of op \<in> owned i"
    and disj: "\<forall>i < length progs. \<forall>j < length progs. i \<noteq> j \<longrightarrow> owned i \<inter> owned j = {}"
  shows "length (fst (run_schedule sched (m0, map (Pair 0) progs)) k) = length (m0 k)"
  using par_inv_run[OF par_inv_init own disj, of m0 sched] by (simp add: par_inv_def)

subsection \<open>Schedules that let every worker finish\<close>

lemma worker_step_length: "length (snd (worker_step cfg j)) = length (snd cfg)"
  by (cases cfg) (simp add: worker_step_def split: prod.splits list.splits)

lemma worker_step_todo:
  assumes "i < length (snd cfg)"
  shows "length (snd (snd (worker_step cfg j) ! i))
           = length (snd (snd cfg ! i)) - (if i = j then 1 else 0)"
proof -
  obtain m ws where cfg: "cfg = (m, ws)" by (cases cfg)
  show ?thesis
    using assms unfolding cfg worker_step_def
    by (auto simp: nth_list_update split: prod.splits list.splits)
qed

lemma run_schedule_length: "length (snd (run_schedule sched cfg)) = length (snd cfg)"
  unfolding run_schedule_def
  by (induction sched arbitrary: cfg) (simp_all add: worker_step_length)

lemma run_schedule_todo:
  "i < length (snd cfg) \<Longrightarrow>
   length (snd (snd (run_schedule sched cfg) ! i))
     = length (snd (snd cfg ! i)) - count_list sched i"
  unfolding run_schedule_def
proof (induction sched arbitrary: cfg)
  case Nil
  then show ?case by simp
next
  case (Cons j sched)
  have "i < length (snd (worker_step cfg j))" using Cons.prems by (simp add: worker_step_length)
  from Cons.IH[OF this] show ?case
    using worker_step_todo[OF Cons.prems, of j] by auto
qed

lemma finished_run_iff:
  "finished (snd (run_schedule sched cfg))
     \<longleftrightarrow> (\<forall>i < length (snd cfg). length (snd (snd cfg ! i)) \<le> count_list sched i)"
proof -
  have "finished (snd (run_schedule sched cfg))
      \<longleftrightarrow> (\<forall>i < length (snd cfg). length (snd (snd (run_schedule sched cfg) ! i)) = 0)"
    by (simp add: finished_def all_set_conv_all_nth run_schedule_length)
  then show ?thesis by (simp add: run_schedule_todo)
qed

lemma count_list_replicate: "count_list (replicate k x) y = (if x = y then k else 0)"
  by (induction k) auto

lemma enough_steps: "\<exists>sched. \<forall>i < (n::nat). b i \<le> count_list sched i"
proof (induction n)
  case 0
  then show ?case by simp
next
  case (Suc n)
  then obtain sched where s: "\<forall>i < n. b i \<le> count_list sched i" by blast
  have "\<forall>i < Suc n. b i \<le> count_list (sched @ replicate (b n) n) i"
    using s by (auto simp: count_list_replicate less_Suc_eq intro: trans_le_add1)
  then show ?case by blast
qed

lemma finishing_schedule: "\<exists>sched. finished (snd (run_schedule sched cfg))"
  unfolding finished_run_iff by (rule enough_steps)

subsection \<open>The operations of a node do what the loop body does\<close>

lemma implementsD: "implements layout p f \<Longrightarrow> fst (exec_prog p (layout s, r)) = layout (f s)"
  by (simp add: implements_def)

lemma implements_Nil: "implements layout [] (\<lambda>s. s)"
  by (simp add: implements_def exec_prog_Nil)

lemma implements_append:
  assumes "implements layout p f" "implements layout q g"
  shows "implements layout (p @ q) (\<lambda>s. g (f s))"
  unfolding implements_def
proof (intro allI)
  fix s r
  obtain r' where "exec_prog p (layout s, r) = (layout (f s), r')"
    using implementsD[OF assms(1), of s r] by (cases "exec_prog p (layout s, r)") simp
  then show "fst (exec_prog (p @ q) (layout s, r)) = layout (g (f s))"
    using implementsD[OF assms(2)] by (simp add: exec_prog_append)
qed

lemma implements_concat:
  assumes "\<And>x. implements layout (P x) (\<lambda>s. f s x)"
  shows "implements layout (concat (map P xs)) (\<lambda>s. foldl f s xs)"
proof (induction xs rule: rev_induct)
  case Nil
  then show ?case by (simp add: implements_Nil)
next
  case (snoc x xs)
  from implements_append[OF snoc assms[of x]] show ?case by simp
qed

lemma motif_shared_simps:
  "motif_shared st A_out = num_out_triangles st"
  "motif_shared st A_in = num_in_triangles st"
  "motif_shared st A_cycle = num_cycle_triangles st"
  "motif_shared st A_middle = num_middle_triangles st"
  by (simp_all add: motif_shared_def)

lemma implements_incr:
  "implements motif_shared (incr_ops A_out v)
     (\<lambda>st. st\<lparr>num_out_triangles := incr (num_out_triangles st) v\<rparr>)"
  "implements motif_shared (incr_ops A_in v)
     (\<lambda>st. st\<lparr>num_in_triangles := incr (num_in_triangles st) v\<rparr>)"
  "implements motif_shared (incr_ops A_cycle v)
     (\<lambda>st. st\<lparr>num_cycle_triangles := incr (num_cycle_triangles st) v\<rparr>)"
  "implements motif_shared (incr_ops A_middle v)
     (\<lambda>st. st\<lparr>num_middle_triangles := incr (num_middle_triangles st) v\<rparr>)"
  unfolding implements_def incr_ops_def exec_prog_def
  by (auto simp: motif_shared_def incr_def fun_eq_iff split: array_id.splits)

lemma implements_out_visit:
  "implements motif_shared (out_visit_ops v out_egonet in_egonet x)
     (\<lambda>st. out_visit v out_egonet in_egonet st x)"
proof -
  have a: "implements motif_shared
      (if x \<in> set out_egonet then incr_ops A_out v else [])
      (\<lambda>st. if x \<in> set out_egonet
             then st\<lparr>num_out_triangles := incr (num_out_triangles st) v\<rparr> else st)"
    by (simp add: implements_incr implements_Nil)
  have b: "implements motif_shared
      (if x \<in> set in_egonet then incr_ops A_cycle v else [])
      (\<lambda>st. if x \<in> set in_egonet
             then st\<lparr>num_cycle_triangles := incr (num_cycle_triangles st) v\<rparr> else st)"
    by (simp add: implements_incr implements_Nil)
  show ?thesis
  proof (cases "x = int v")
    case True
    then show ?thesis by (simp add: out_visit_ops_def out_visit_def implements_Nil)
  next
    case False
    have "(\<lambda>st. out_visit v out_egonet in_egonet st x)
        = (\<lambda>st. (\<lambda>st. if x \<in> set in_egonet
             then st\<lparr>num_cycle_triangles := incr (num_cycle_triangles st) v\<rparr> else st)
            ((\<lambda>st. if x \<in> set out_egonet
             then st\<lparr>num_out_triangles := incr (num_out_triangles st) v\<rparr> else st) st))"
      using False by (simp add: out_visit_def fun_eq_iff Let_def)
    then show ?thesis
      using implements_append[OF a b] False by (simp add: out_visit_ops_def)
  qed
qed

lemma implements_in_visit:
  "implements motif_shared (in_visit_ops v out_egonet in_egonet x)
     (\<lambda>st. in_visit v out_egonet in_egonet st x)"
proof -
  have a: "implements motif_shared
      (if x \<in> set out_egonet then incr_ops A_middle v else [])
      (\<lambda>st. if x \<in> set out_egonet
             then st\<lparr>num_middle_triangles := incr (num_middle_triangles st) v\<rparr> else st)"
    by (simp add: implements_incr implements_Nil)
  have b: "implements motif_shared
      (if x \<in> set in_egonet then incr_ops A_in v else [])
      (\<lambda>st. if x \<in> set in_egonet
             then st\<lparr>num_in_triangles := incr (num_in_triangles st) v\<rparr> else st)"
    by (simp add: implements_incr implements_Nil)
  show ?thesis
  proof (cases "x = int v")
    case True
    then show ?thesis by (simp add: in_visit_ops_def in_visit_def implements_Nil)
  next
    case False
    have "(\<lambda>st. in_visit v out_egonet in_egonet st x)
        = (\<lambda>st. (\<lambda>st. if x \<in> set in_egonet
             then st\<lparr>num_in_triangles := incr (num_in_triangles st) v\<rparr> else st)
            ((\<lambda>st. if x \<in> set out_egonet
             then st\<lparr>num_middle_triangles := incr (num_middle_triangles st) v\<rparr> else st) st))"
      using False by (simp add: in_visit_def fun_eq_iff Let_def)
    then show ?thesis
      using implements_append[OF a b] False by (simp add: in_visit_ops_def)
  qed
qed

lemma implements_motif_neigh:
  assumes "\<And>x. implements motif_shared (visit_ops x) (\<lambda>st. visit st x)"
  shows "implements motif_shared
           (motif_neigh_ops visit_ops beyond_out out_indices out_indptr neigh)
           (\<lambda>st. motif_neigh_body visit beyond_out out_indices out_indptr st neigh)"
  unfolding motif_neigh_ops_def motif_neigh_body_def
  by (rule implements_concat) (rule assms)

lemma implements_directed_node:
  "implements motif_shared
     (directed_node_ops beyond_out beyond_in out_indices out_indptr in_indices in_indptr v)
     (\<lambda>st. directed_node beyond_out beyond_in out_indices out_indptr in_indices in_indptr st v)"
  unfolding directed_node_ops_def directed_node_def Let_def
  by (intro implements_append implements_concat implements_motif_neigh
      implements_out_visit implements_in_visit)

lemma implements_local_node:
  "implements local_shared (local_node_ops beyond indices indptr v)
     (\<lambda>arr. local_node beyond indices indptr arr v)"
  unfolding implements_def local_node_ops_def exec_prog_def
  by (auto simp: local_shared_def local_node_def fun_eq_iff split: array_id.splits)

text \<open>Every operation of the iteration for node \<open>v\<close> addresses slot \<open>v\<close>.\<close>

lemma local_node_ops_slot:
  "op \<in> set (local_node_ops beyond indices indptr v) \<Longrightarrow> slot_of op = v"
  by (simp add: local_node_ops_def)

lemma visit_ops_slot:
  "op \<in> set (out_visit_ops v out_egonet in_egonet x) \<Longrightarrow> slot_of op = v"
  "op \<in> set (in_visit_ops v out_egonet in_egonet x) \<Longrightarrow> slot_of op = v"
  by (auto simp: out_visit_ops_def in_visit_ops_def incr_ops_def split: if_splits)

lemma directed_node_ops_slot:
  "op \<in> set (directed_node_ops beyond_out beyond_in out_indices out_indptr
                in_indices in_indptr v) \<Longrightarrow> slot_of op = v"
  by (auto simp: directed_node_ops_def motif_neigh_ops_def Let_def visit_ops_slot)

subsection \<open>Any partition of the nodes among workers, any interleaving of the workers\<close>

lemma distinct_concat_nth:
  "distinct (concat xs) \<Longrightarrow> i < length xs \<Longrightarrow> distinct (xs ! i)"
  by (induction xs arbitrary: i) (auto simp: nth_Cons split: nat.splits)

lemma disjoint_concat_nth:
  "distinct (concat xs) \<Longrightarrow> i < length xs \<Longrightarrow> j < length xs \<Longrightarrow> i \<noteq> j \<Longrightarrow>
   set (xs ! i) \<inter> set (xs ! j) = {}"
proof (induction xs arbitrary: i j)
  case Nil
  then show ?case by simp
next
  case (Cons x xs)
  have d: "distinct (concat xs)" and xd: "\<And>ys. ys \<in> set xs \<Longrightarrow> set x \<inter> set ys = {}"
    using Cons.prems(1) by auto
  show ?case
  proof (cases i)
    case 0
    then obtain j' where j: "j = Suc j'" using Cons.prems(4) by (cases j) simp_all
    then have "xs ! j' \<in> set xs" using Cons.prems(3) by simp
    from xd[OF this] show ?thesis using 0 j by simp
  next
    case (Suc i')
    show ?thesis
    proof (cases j)
      case 0
      have "xs ! i' \<in> set xs" using Cons.prems(2) Suc by simp
      from xd[OF this] show ?thesis using 0 Suc by auto
    next
      case j: (Suc j')
      show ?thesis using Cons.IH[OF d, of i' j'] Cons.prems(2,3,4) Suc j by simp
    qed
  qed
qed

lemma cover_nth:
  assumes "set (concat chunks) = {..<N}" "s < N"
  obtains i where "i < length chunks" "s \<in> set (chunks ! i)"
proof -
  have "s \<in> set (concat chunks)" using assms by simp
  then obtain c where "c \<in> set chunks" "s \<in> set c" by auto
  then show thesis using that by (auto simp: in_set_conv_nth)
qed

lemma spawn_progs:
  "spawn node_ops chunks = map (Pair 0) (map (\<lambda>chunk. concat (map node_ops chunk)) chunks)"
  by (simp add: spawn_def)

lemma parallel_owned:
  assumes slots: "\<And>v op. op \<in> set (node_ops v) \<Longrightarrow> slot_of op = v"
  shows "\<forall>i < length (map (\<lambda>chunk. concat (map node_ops chunk)) chunks).
           \<forall>op \<in> set (map (\<lambda>chunk. concat (map node_ops chunk)) chunks ! i).
             slot_of op \<in> set (chunks ! i)"
proof (intro allI impI ballI)
  fix i op
  assume i: "i < length (map (\<lambda>chunk. concat (map node_ops chunk)) chunks)"
    and op: "op \<in> set (map (\<lambda>chunk. concat (map node_ops chunk)) chunks ! i)"
  from i op obtain v where "v \<in> set (chunks ! i)" "op \<in> set (node_ops v)" by auto
  then show "slot_of op \<in> set (chunks ! i)" using slots by simp
qed

lemma parallel_length:
  assumes slots: "\<And>v op. op \<in> set (node_ops v) \<Longrightarrow> slot_of op = v"
    and d: "distinct (concat chunks)"
  shows "length (fst (run_schedule sched (m0, spawn node_ops chunks)) k) = length (m0 k)"
proof -
  have disj: "\<forall>i < length (map (\<lambda>chunk. concat (map node_ops chunk)) chunks).
      \<forall>j < length (map (\<lambda>chunk. concat (map node_ops chunk)) chunks).
        i \<noteq> j \<longrightarrow> set (chunks ! i) \<inter> set (chunks ! j) = {}"
    using disjoint_concat_nth[OF d] by simp
  show ?thesis
    unfolding spawn_progs
    by (rule interleaved_length[where owned = "\<lambda>i. set (chunks ! i)",
          OF parallel_owned[of node_ops, OF slots] disj])
qed

lemma parallel_slots:
  assumes slots: "\<And>v op. op \<in> set (node_ops v) \<Longrightarrow> slot_of op = v"
    and d: "distinct (concat chunks)"
    and fin: "finished (snd (run_schedule sched (m0, spawn node_ops chunks)))"
    and i: "i < length chunks" and s: "s \<in> set (chunks ! i)"
  shows "fst (run_schedule sched (m0, spawn node_ops chunks)) k ! s
           = fst (exec_prog (concat (map node_ops (chunks ! i))) (m0, 0)) k ! s"
proof -
  let ?progs = "map (\<lambda>chunk. concat (map node_ops chunk)) chunks"
  have disj: "\<forall>i < length ?progs. \<forall>j < length ?progs.
        i \<noteq> j \<longrightarrow> set (chunks ! i) \<inter> set (chunks ! j) = {}"
    using disjoint_concat_nth[OF d] by simp
  have fin': "finished (snd (run_schedule sched (m0, map (Pair 0) ?progs)))"
    using fin by (simp only: spawn_progs)
  have i': "i < length ?progs" using i by simp
  have "fst (run_schedule sched (m0, map (Pair 0) ?progs)) k ! s
           = fst (exec_prog (?progs ! i) (m0, 0)) k ! s"
    by (rule interleaved_run[where owned = "\<lambda>i. set (chunks ! i)",
          OF parallel_owned[of node_ops, OF slots] disj fin' i' s])
  then show ?thesis using i by (simp add: spawn_progs)
qed

lemma by_slots: "length xs = N \<Longrightarrow> (\<And>s. s < N \<Longrightarrow> xs ! s = f s) \<Longrightarrow> xs = map f [0..<N]"
  by (rule nth_equalityI) simp_all

lemma local_chunk_run:
  "fst (exec_prog (concat (map (local_node_ops beyond indices indptr) chunk))
          (local_shared arr, r))
     = local_shared (foldl (local_node beyond indices indptr) arr chunk)"
  by (rule implementsD[OF implements_concat[of local_shared
          "local_node_ops beyond indices indptr" "local_node beyond indices indptr",
          OF implements_local_node]])

lemma directed_chunk_run:
  "fst (exec_prog (concat (map (directed_node_ops beyond_out beyond_in
                                  out_indices out_indptr in_indices in_indptr) chunk))
          (motif_shared st, r))
     = motif_shared (foldl (directed_node beyond_out beyond_in
                              out_indices out_indptr in_indices in_indptr) st chunk)"
  by (rule implementsD[OF implements_concat[of motif_shared
          "directed_node_ops beyond_out beyond_in out_indices out_indptr in_indices in_indptr"
          "directed_node beyond_out beyond_in out_indices out_indptr in_indices in_indptr",
          OF implements_directed_node]])

lemma local_parallel:
  assumes len: "length indptr = N + 1"
    and d: "distinct (concat chunks)" and c: "set (concat chunks) = {..<N}"
    and fin: "finished (snd (run_schedule sched
                (local_start N, spawn (local_node_ops beyond indices indptr) chunks)))"
  shows "count_number_local_triangles beyond indices indptr
           = Inr (fst (run_schedule sched
               (local_start N, spawn (local_node_ops beyond indices indptr) chunks)) A_triangles)"
proof -
  let ?m = "fst (run_schedule sched
               (local_start N, spawn (local_node_ops beyond indices indptr) chunks))"
  have l: "length (?m A_triangles) = N"
    using parallel_length[of "local_node_ops beyond indices indptr" chunks sched
        "local_start N" A_triangles, OF local_node_ops_slot d]
    by (simp add: local_start_def local_shared_def zeros_def)
  have n: "?m A_triangles ! s = local_count beyond indices indptr s" if s: "s < N" for s
  proof -
    obtain i where i: "i < length chunks" "s \<in> set (chunks ! i)"
      using cover_nth[OF c s] by blast
    have "?m A_triangles ! s
        = fst (exec_prog (concat (map (local_node_ops beyond indices indptr) (chunks ! i)))
                 (local_start N, 0)) A_triangles ! s"
      by (rule parallel_slots[OF local_node_ops_slot d fin i])
    also have "\<dots> = foldl (local_node beyond indices indptr) (zeros N) (chunks ! i) ! s"
      unfolding local_start_def local_chunk_run by (simp add: local_shared_def)
    also have "\<dots> = local_count beyond indices indptr s"
      using s i(2) by (simp add: foldl_local_node foldl_assign_nth zeros_def)
    finally show ?thesis .
  qed
  have "?m A_triangles = map (local_count beyond indices indptr) [0..<N]"
    using l n by (rule by_slots)
  then show ?thesis by (simp add: local_triangles_rows[OF len])
qed

lemma directed_chunk_slot:
  assumes "distinct chunk" "s \<in> set chunk" "s < N"
  shows "motif_shared (foldl (directed_node beyond_out beyond_in
            out_indices out_indptr in_indices in_indptr)
          \<lparr>num_out_triangles = zeros N, num_in_triangles = zeros N,
           num_cycle_triangles = zeros N, num_middle_triangles = zeros N\<rparr> chunk) k ! s
     = (case k of
          A_out \<Rightarrow> int (kernel_out beyond_out out_indices out_indptr s)
        | A_in \<Rightarrow> int (kernel_in beyond_out beyond_in out_indices out_indptr in_indices in_indptr s)
        | A_cycle \<Rightarrow> int (kernel_cycle beyond_out beyond_in out_indices out_indptr in_indices in_indptr s)
        | A_middle \<Rightarrow> int (kernel_middle beyond_out beyond_in out_indices out_indptr in_indices in_indptr s)
        | A_triangles \<Rightarrow> [] ! s)"
  using assms
  by (cases k)
    (simp_all add: motif_shared_def foldl_directed_node foldl_node_effect foldl_add_at_nth
      zeros_def)

lemma directed_parallel:
  assumes len: "length out_indptr = N + 1"
    and d: "distinct (concat chunks)" and c: "set (concat chunks) = {..<N}"
    and fin: "finished (snd (run_schedule sched (directed_start N,
                spawn (directed_node_ops beyond_out beyond_in
                         out_indices out_indptr in_indices in_indptr) chunks)))"
  shows "count_number_triangles_directed beyond_out beyond_in
           out_indices out_indptr in_indices in_indptr
           = Inr (let m = fst (run_schedule sched (directed_start N,
                            spawn (directed_node_ops beyond_out beyond_in
                                     out_indices out_indptr in_indices in_indptr) chunks))
                  in (m A_out, m A_in, m A_cycle, m A_middle))"
proof -
  let ?ops = "directed_node_ops beyond_out beyond_in out_indices out_indptr in_indices in_indptr"
  let ?m = "fst (run_schedule sched (directed_start N, spawn ?ops chunks))"
  have l: "length (?m k) = length (directed_start N k)" for k
    by (rule parallel_length[of ?ops chunks sched "directed_start N" k,
          OF directed_node_ops_slot d])
  have n: "?m k ! s = (case k of
          A_out \<Rightarrow> int (kernel_out beyond_out out_indices out_indptr s)
        | A_in \<Rightarrow> int (kernel_in beyond_out beyond_in out_indices out_indptr in_indices in_indptr s)
        | A_cycle \<Rightarrow> int (kernel_cycle beyond_out beyond_in out_indices out_indptr in_indices in_indptr s)
        | A_middle \<Rightarrow> int (kernel_middle beyond_out beyond_in out_indices out_indptr in_indices in_indptr s)
        | A_triangles \<Rightarrow> [] ! s)" if s: "s < N" for s k
  proof -
    obtain i where i: "i < length chunks" "s \<in> set (chunks ! i)"
      using cover_nth[OF c s] by blast
    have "?m k ! s = fst (exec_prog (concat (map ?ops (chunks ! i))) (directed_start N, 0)) k ! s"
      by (rule parallel_slots[OF directed_node_ops_slot d fin i])
    also have "\<dots> = motif_shared (foldl (directed_node beyond_out beyond_in
            out_indices out_indptr in_indices in_indptr)
          \<lparr>num_out_triangles = zeros N, num_in_triangles = zeros N,
           num_cycle_triangles = zeros N, num_middle_triangles = zeros N\<rparr> (chunks ! i)) k ! s"
      unfolding directed_start_def directed_chunk_run by (rule refl)
    also note directed_chunk_slot[OF distinct_concat_nth[OF d i(1)] i(2) s]
    finally show ?thesis .
  qed
  have a: "?m A_out = map (\<lambda>v. int (kernel_out beyond_out out_indices out_indptr v)) [0..<N]"
    using l[of A_out] n[of _ A_out]
    by (intro by_slots) (simp_all add: directed_start_def motif_shared_def zeros_def)
  have b: "?m A_in = map (\<lambda>v. int (kernel_in beyond_out beyond_in
                          out_indices out_indptr in_indices in_indptr v)) [0..<N]"
    using l[of A_in] n[of _ A_in]
    by (intro by_slots) (simp_all add: directed_start_def motif_shared_def zeros_def)
  have c': "?m A_cycle = map (\<lambda>v. int (kernel_cycle beyond_out beyond_in
                          out_indices out_indptr in_indices in_indptr v)) [0..<N]"
    using l[of A_cycle] n[of _ A_cycle]
    by (intro by_slots) (simp_all add: directed_start_def motif_shared_def zeros_def)
  have d': "?m A_middle = map (\<lambda>v. int (kernel_middle beyond_out beyond_in
                          out_indices out_indptr in_indices in_indptr v)) [0..<N]"
    using l[of A_middle] n[of _ A_middle]
    by (intro by_slots) (simp_all add: directed_start_def motif_shared_def zeros_def)
  show ?thesis
    unfolding triangles_directed_rows[OF len] Let_def a b c' d' by (rule refl)
qed

text \<open>
  C7. Both kernels are functions of their inputs, and the result does not depend on
  the order in which the nodes are processed nor on how the node range is split among
  parallel workers. Let \<open>chunks\<close> be any split of the nodes \<open>0, \<dots>, N - 1\<close> into lists, one
  list for each worker, the nodes of a worker in any order, and let the workers run at the
  same time, interleaved load by load and store by store in any way (\<open>sched\<close>). Whenever all
  workers have finished, the shared result arrays are exactly the arrays that
  \<open>count_number_local_triangles\<close>, resp. \<open>count_number_triangles_directed\<close>, returns: any two
  runs on the same input, with whatever partitions and interleavings, leave identical
  arrays. The reason is stated with it: every load and store of the iteration for node \<open>v\<close>
  addresses slot \<open>v\<close> of a result array, so different nodes write disjoint slots. Every
  partition has a schedule on which all workers finish. A valid CSR input has
  \<open>length indptr = N + 1\<close>; nothing more is needed.
\<close>

theorem C7_any_partition_any_interleaving:
  assumes "distinct (concat chunks)" and "set (concat chunks) = {..<N}"
  shows "(length indptr = N + 1 \<longrightarrow>
            (\<forall>sched. finished (snd (run_schedule sched
                          (local_start N, spawn (local_node_ops beyond indices indptr) chunks))) \<longrightarrow>
               count_number_local_triangles beyond indices indptr
                 = Inr (fst (run_schedule sched
                          (local_start N, spawn (local_node_ops beyond indices indptr) chunks))
                        A_triangles))) \<and>
         (length out_indptr = N + 1 \<longrightarrow>
            (\<forall>sched. finished (snd (run_schedule sched (directed_start N,
                          spawn (directed_node_ops beyond_out beyond_in
                                   out_indices out_indptr in_indices in_indptr) chunks))) \<longrightarrow>
               count_number_triangles_directed beyond_out beyond_in
                   out_indices out_indptr in_indices in_indptr
                 = Inr (let m = fst (run_schedule sched (directed_start N,
                                  spawn (directed_node_ops beyond_out beyond_in
                                           out_indices out_indptr in_indices in_indptr) chunks))
                        in (m A_out, m A_in, m A_cycle, m A_middle)))) \<and>
         (\<forall>v. \<forall>op \<in> set (local_node_ops beyond indices indptr v). slot_of op = v) \<and>
         (\<forall>v. \<forall>op \<in> set (directed_node_ops beyond_out beyond_in
                              out_indices out_indptr in_indices in_indptr v). slot_of op = v) \<and>
         (\<exists>sched. finished (snd (run_schedule sched
                     (local_start N, spawn (local_node_ops beyond indices indptr) chunks)))) \<and>
         (\<exists>sched. finished (snd (run_schedule sched (directed_start N,
                     spawn (directed_node_ops beyond_out beyond_in
                              out_indices out_indptr in_indices in_indptr) chunks))))"
proof (intro conjI impI allI ballI)
  fix sched
  assume "length indptr = N + 1"
    and "finished (snd (run_schedule sched
           (local_start N, spawn (local_node_ops beyond indices indptr) chunks)))"
  then show "count_number_local_triangles beyond indices indptr
      = Inr (fst (run_schedule sched
               (local_start N, spawn (local_node_ops beyond indices indptr) chunks)) A_triangles)"
    using assms by (intro local_parallel)
next
  fix sched
  assume "length out_indptr = N + 1"
    and "finished (snd (run_schedule sched (directed_start N,
           spawn (directed_node_ops beyond_out beyond_in
                    out_indices out_indptr in_indices in_indptr) chunks)))"
  then show "count_number_triangles_directed beyond_out beyond_in
        out_indices out_indptr in_indices in_indptr
      = Inr (let m = fst (run_schedule sched (directed_start N,
                       spawn (directed_node_ops beyond_out beyond_in
                                out_indices out_indptr in_indices in_indptr) chunks))
             in (m A_out, m A_in, m A_cycle, m A_middle))"
    using assms by (intro directed_parallel)
next
  fix v op
  assume "op \<in> set (local_node_ops beyond indices indptr v)"
  then show "slot_of op = v" by (rule local_node_ops_slot)
next
  fix v op
  assume "op \<in> set (directed_node_ops beyond_out beyond_in
                       out_indices out_indptr in_indices in_indptr v)"
  then show "slot_of op = v" by (rule directed_node_ops_slot)
next
  show "\<exists>sched. finished (snd (run_schedule sched
          (local_start N, spawn (local_node_ops beyond indices indptr) chunks)))"
    by (rule finishing_schedule)
next
  show "\<exists>sched. finished (snd (run_schedule sched (directed_start N,
          spawn (directed_node_ops beyond_out beyond_in
                   out_indices out_indptr in_indices in_indptr) chunks)))"
    by (rule finishing_schedule)
qed

theorem C7_any_partition_any_interleaving_witness:
  "distinct (concat [[2, 0], [1::nat]]) \<and> set (concat [[2, 0], [1::nat]]) = {..<3} \<and>
   length [0, 2, 3, 3 :: int] = 3 + 1 \<and>
   finished (snd (run_schedule [0, 1, 0]
      (local_start 3, spawn (local_node_ops (\<lambda>_. 0) [1, 2, 2] [0, 2, 3, 3]) [[2, 0], [1]]))) \<and>
   count_number_local_triangles (\<lambda>_. 0) [1, 2, 2] [0, 2, 3, 3]
     = Inr (fst (run_schedule [0, 1, 0]
         (local_start 3, spawn (local_node_ops (\<lambda>_. 0) [1, 2, 2] [0, 2, 3, 3]) [[2, 0], [1]]))
        A_triangles) \<and>
   finished (snd (run_schedule [0, 1, 0, 1, 0, 0]
      (directed_start 3,
       spawn (directed_node_ops (\<lambda>_. 0) (\<lambda>_. 0) [1, 2, 2] [0, 2, 3, 3] [0, 0, 1] [0, 0, 1, 3])
         [[2, 0], [1]]))) \<and>
   count_number_triangles_directed (\<lambda>_. 0) (\<lambda>_. 0) [1, 2, 2] [0, 2, 3, 3] [0, 0, 1] [0, 0, 1, 3]
     = Inr (let m = fst (run_schedule [0, 1, 0, 1, 0, 0]
                      (directed_start 3,
                       spawn (directed_node_ops (\<lambda>_. 0) (\<lambda>_. 0)
                                [1, 2, 2] [0, 2, 3, 3] [0, 0, 1] [0, 0, 1, 3]) [[2, 0], [1]]))
            in (m A_out, m A_in, m A_cycle, m A_middle))"
proof -
  have h1: "distinct (concat [[2, 0], [1::nat]])" by simp
  have h2: "set (concat [[2, 0], [1::nat]]) = {..<3}" by auto
  have h3: "length [0, 2, 3, 3 :: int] = 3 + 1" by simp
  have f1: "finished (snd (run_schedule [0, 1, 0]
      (local_start 3, spawn (local_node_ops (\<lambda>_. 0) [1, 2, 2] [0, 2, 3, 3]) [[2, 0], [1]])))"
    by code_simp
  have f2: "finished (snd (run_schedule [0, 1, 0, 1, 0, 0]
      (directed_start 3,
       spawn (directed_node_ops (\<lambda>_. 0) (\<lambda>_. 0) [1, 2, 2] [0, 2, 3, 3] [0, 0, 1] [0, 0, 1, 3])
         [[2, 0], [1]])))"
    by code_simp
  note t = C7_any_partition_any_interleaving[OF h1 h2,
      where indptr = "[0, 2, 3, 3]" and indices = "[1, 2, 2]" and beyond = "\<lambda>_. 0"
        and out_indptr = "[0, 2, 3, 3]" and out_indices = "[1, 2, 2]"
        and in_indptr = "[0, 0, 1, 3]" and in_indices = "[0, 0, 1]"
        and beyond_out = "\<lambda>_. 0" and beyond_in = "\<lambda>_. 0"]
  from t h1 h2 h3 f1 f2 show ?thesis by blast
qed

end
